theory Spec2Isabelle
  imports Complex_Main "HOL-Library.Word"
begin

unbundle bit_operations_syntax

section \<open>Packed Hilbert R-tree: level computation\<close>

text \<open>
  \<^verbatim>\<open>fgb/header.ts\<close> (\<^verbatim>\<open>calcIndexSize\<close>) and \<^verbatim>\<open>fgb/index.ts\<close>
  (\<^verbatim>\<open>computeLevelBounds\<close>) both count the nodes of the tree bottom-up with the loop
  \<^verbatim>\<open>while (n > 1) { n = Math.ceil(n / nodeSize); ... }\<close>.
  Feature counts and node sizes are non-negative integers (a \<^verbatim>\<open>u64\<close> and a \<^verbatim>\<open>u16\<close> read
  from the header), modelled as \<open>nat\<close>.  The loops have no iteration bound, so they are
  modelled as partial functions into \<open>option\<close>: \<open>None\<close> is a loop that never returns.
\<close>

definition ceil_div :: "nat \<Rightarrow> nat \<Rightarrow> nat" where
  \<comment> \<open>\<^verbatim>\<open>Math.ceil(n / nodeSize)\<close> for a positive \<^verbatim>\<open>nodeSize\<close>\<close>
  "ceil_div n nodeSize = (n + nodeSize - 1) div nodeSize"

text \<open>
  The loop of \<^verbatim>\<open>calcIndexSize\<close>, with the running \<^verbatim>\<open>totalNodes\<close>.  For \<^verbatim>\<open>nodeSize = 0\<close>
  JavaScript computes \<^verbatim>\<open>n / 0 = Infinity\<close>, which stays above 1 for ever: the model loops
  on the same state.
\<close>

partial_function (option) sumLevels :: "nat \<Rightarrow> nat \<Rightarrow> nat \<Rightarrow> nat option" where
  "sumLevels n nodeSize totalNodes =
     (if n > 1 then
        (if nodeSize = 0 then sumLevels n nodeSize totalNodes
         else sumLevels (ceil_div n nodeSize) nodeSize (totalNodes + ceil_div n nodeSize))
      else Some totalNodes)"

declare sumLevels.simps [code]

definition NODE_ITEM_SIZE :: nat where
  "NODE_ITEM_SIZE = 40"

definition calcIndexSize :: "nat \<Rightarrow> nat \<Rightarrow> nat option" where
  "calcIndexSize featuresCount nodeSize =
     (if featuresCount = 0 \<or> nodeSize = 0 then Some 0
      else map_option (\<lambda>totalNodes. totalNodes * NODE_ITEM_SIZE)
             (sumLevels featuresCount nodeSize featuresCount))"

text \<open>
  The first loop of \<^verbatim>\<open>computeLevelBounds\<close>: \<^verbatim>\<open>levelNumNodes\<close> collects the node count
  of every level, leaves first.
\<close>

partial_function (option) countLevels :: "nat \<Rightarrow> nat \<Rightarrow> nat list \<Rightarrow> nat list option" where
  "countLevels n nodeSize levelNumNodes =
     (if n > 1 then
        (if nodeSize = 0 then countLevels n nodeSize levelNumNodes
         else countLevels (ceil_div n nodeSize) nodeSize (levelNumNodes @ [ceil_div n nodeSize]))
      else Some levelNumNodes)"

declare countLevels.simps [code]

text \<open>
  The second loop walks \<^verbatim>\<open>levelNumNodes\<close> from the last entry (the root) down to entry 0
  and writes \<^verbatim>\<open>levelBounds[i] = [offset, offset + levelNumNodes[i]]\<close>.  \<open>assignBounds\<close>
  takes the counts root first and returns the bounds root first.
\<close>

fun assignBounds :: "nat \<Rightarrow> nat list \<Rightarrow> (nat \<times> nat) list" where
  "assignBounds offset [] = []"
| "assignBounds offset (c # cs) = (offset, offset + c) # assignBounds (offset + c) cs"

definition computeLevelBounds :: "nat \<Rightarrow> nat \<Rightarrow> (nat \<times> nat) list option" where
  "computeLevelBounds featuresCount nodeSize =
     map_option (\<lambda>levelNumNodes. rev (assignBounds 0 (rev levelNumNodes)))
       (countLevels featuresCount nodeSize [featuresCount])"

section \<open>JavaScript integer operators\<close>

text \<open>
  The integer-valued JavaScript numbers of the code are modelled as \<open>int\<close>.  The bitwise
  operators first convert their operands to 32 bits (\<^verbatim>\<open>ToInt32\<close>, and \<^verbatim>\<open>ToUint32\<close> for
  \<^verbatim>\<open>>>>\<close>); the conversion is written out.
\<close>

definition toInt32 :: "int \<Rightarrow> int" where
  "toInt32 v = (v + 2 ^ 31) mod 2 ^ 32 - 2 ^ 31"

definition toUint32 :: "int \<Rightarrow> int" where
  "toUint32 v = v mod 2 ^ 32"

definition js_and :: "int \<Rightarrow> int \<Rightarrow> int" where
  "js_and a b = toInt32 a AND toInt32 b"

definition js_or :: "int \<Rightarrow> int \<Rightarrow> int" where
  "js_or a b = toInt32 a OR toInt32 b"

definition js_xor :: "int \<Rightarrow> int \<Rightarrow> int" where
  "js_xor a b = toInt32 a XOR toInt32 b"

definition js_shl :: "int \<Rightarrow> nat \<Rightarrow> int" where
  \<comment> \<open>\<^verbatim>\<open>a << n\<close>\<close>
  "js_shl a n = toInt32 (toInt32 a * 2 ^ (n mod 32))"

definition js_sar :: "int \<Rightarrow> nat \<Rightarrow> int" where
  \<comment> \<open>\<^verbatim>\<open>a >> n\<close>, sign-propagating\<close>
  "js_sar a n = toInt32 a div 2 ^ (n mod 32)"

definition js_shr :: "int \<Rightarrow> nat \<Rightarrow> int" where
  \<comment> \<open>\<^verbatim>\<open>a >>> n\<close>, zero-filling\<close>
  "js_shr a n = toUint32 a div 2 ^ (n mod 32)"

type_synonym byte = "8 word"

definition toUint8 :: "int \<Rightarrow> byte" where
  \<comment> \<open>a store into a \<^verbatim>\<open>Uint8Array\<close> keeps the low 8 bits\<close>
  "toUint8 v = word_of_int v"

section \<open>PBF writer: varints\<close>

text \<open>
  \<^verbatim>\<open>pbf/writer.ts\<close>.  The loops of \<^verbatim>\<open>writeVarint\<close> and \<^verbatim>\<open>writeBigVarint\<close> store one
  byte at \<^verbatim>\<open>buf[pos++]\<close> per iteration; the models return the bytes stored, in order.
\<close>

function varintLoop :: "int \<Rightarrow> byte list" where
  "varintLoop val =
     (if val > 0x7f
      then toUint8 (js_or (js_and val 0x7f) 0x80) # varintLoop (js_shr val 7)
      else [toUint8 val])"
  by pat_completeness auto
termination
proof (relation "measure nat")
  fix val :: int
  assume "val > 0x7f"
  then have "val mod 2 ^ 32 div 128 \<le> val div 128"
    by (intro zdiv_mono1) (simp_all add: zmod_le_nonneg_dividend)
  also have "\<dots> < val" using \<open>val > 0x7f\<close> by simp
  finally show "(js_shr val 7, val) \<in> measure nat"
    using \<open>val > 0x7f\<close> by (simp add: js_shr_def toUint32_def)
qed simp

declare varintLoop.simps [simp del]

function bigVarintLoop :: "int \<Rightarrow> int \<Rightarrow> byte list" where
  "bigVarintLoop hiPart loPart =
     (if hiPart > 0 \<or> loPart > 0x7f
      then toUint8 (js_or (js_and loPart 0x7f) 0x80)
             # bigVarintLoop (js_shr hiPart 7)
                 (js_or (js_shl (js_and hiPart 0x7f) 25) (js_shr loPart 7))
      else [toUint8 loPart])"
  by pat_completeness auto
termination
proof (relation "measures [\<lambda>(hi, lo). if hi < 0 then 1 else 0, \<lambda>(hi, lo). nat hi,
    \<lambda>(hi, lo). nat lo]")
  fix hiPart loPart :: int
  assume c: "hiPart > 0 \<or> loPart > 0x7f"
  let ?lo' = "js_or (js_shl (js_and hiPart 0x7f) 25) (js_shr loPart 7)"
  have hi'0: "0 \<le> js_shr hiPart 7"
    by (simp add: js_shr_def toUint32_def pos_imp_zdiv_nonneg_iff)
  show "((js_shr hiPart 7, ?lo'), (hiPart, loPart)) \<in>
     measures [\<lambda>(hi, lo). if hi < 0 then 1 else 0, \<lambda>(hi, lo). nat hi, \<lambda>(hi, lo). nat lo]"
  proof (cases "hiPart < 0")
    case True
    with hi'0 show ?thesis by simp
  next
    case False
    show ?thesis
    proof (cases "hiPart = 0")
      case True
      with c have lo: "loPart > 0x7f" by simp
      define x where "x = loPart mod 2 ^ 32 div 128"
      have x0: "0 \<le> x" by (simp add: x_def pos_imp_zdiv_nonneg_iff)
      have "loPart mod 2 ^ 32 < 2 ^ 32" by simp
      then have x1: "x < 2 ^ 25" unfolding x_def by simp
      have "x \<le> loPart div 128" unfolding x_def using lo
        by (intro zdiv_mono1) (simp_all add: zmod_le_nonneg_dividend)
      also have "\<dots> < loPart" using lo by simp
      finally have x2: "x < loPart" .
      have "toInt32 x = x" using x0 x1 by (simp add: toInt32_def)
      then have "?lo' = x"
        using True
        by (simp add: js_or_def js_shl_def js_and_def js_shr_def toUint32_def x_def toInt32_def)
      with x0 x2 True show ?thesis by (simp add: js_shr_def toUint32_def)
    next
      case False
      with \<open>\<not> hiPart < 0\<close> have hp: "hiPart > 0" by simp
      then have "hiPart mod 2 ^ 32 div 128 \<le> hiPart div 128"
        by (intro zdiv_mono1) (simp_all add: zmod_le_nonneg_dividend)
      also have "\<dots> < hiPart" using hp by simp
      finally show ?thesis using hp hi'0 by (simp add: js_shr_def toUint32_def)
    qed
  qed
qed simp

declare bigVarintLoop.simps [simp del]

definition writeBigVarint :: "int \<Rightarrow> byte list" where
  \<comment> \<open>\<^verbatim>\<open>lo = val >>> 0\<close>, \<^verbatim>\<open>hi = Math.floor(val / 0x100000000) >>> 0\<close>\<close>
  "writeBigVarint val = bigVarintLoop (js_shr (val div 0x100000000) 0) (js_shr val 0)"

text \<open>
  The writer.  \<open>buf\<close> holds the bytes written so far, \<^verbatim>\<open>buf.subarray(0, pos)\<close>, so that
  \<^verbatim>\<open>pos\<close> is its length; \<^verbatim>\<open>ensure\<close> and \<^verbatim>\<open>grow\<close> only enlarge the capacity behind
  \<^verbatim>\<open>pos\<close> and have no counterpart.  \<open>lengthStack\<close> is the stack of placeholder positions
  (top of the stack last).
\<close>

record PbfWriter =
  buf :: "byte list"
  lengthStack :: "nat list"

definition newPbfWriter :: PbfWriter where
  "newPbfWriter = \<lparr>buf = [], lengthStack = []\<rparr>"

definition pos :: "PbfWriter \<Rightarrow> nat" where
  "pos w = length (buf w)"

definition finish :: "PbfWriter \<Rightarrow> byte list" where
  "finish w = buf w"

definition writeVarint :: "PbfWriter \<Rightarrow> int \<Rightarrow> PbfWriter" where
  "writeVarint w val =
     (if val < 0 then w\<lparr>buf := buf w @ writeBigVarint val\<rparr>
      else w\<lparr>buf := buf w @ varintLoop val\<rparr>)"

definition writeSVarint :: "PbfWriter \<Rightarrow> int \<Rightarrow> PbfWriter" where
  "writeSVarint w val = writeVarint w (js_xor (js_shl val 1) (js_sar val 31))"

definition varintSize :: "int \<Rightarrow> nat" where
  "varintSize val =
     (if val < 0 then 10
      else if val < 0x80 then 1
      else if val < 0x4000 then 2
      else if val < 0x200000 then 3
      else if val < 0x10000000 then 4
      else 5)"

text \<open>
  Modelled from the spec: the repository has no varint reader (its tests decode with the
  external \<^verbatim>\<open>pbf\<close> package); this is the standard base-128 little-endian decoding of
  one varint, returning the value and the bytes that follow it.
\<close>

fun readVarint :: "byte list \<Rightarrow> (nat \<times> byte list) option" where
  "readVarint [] = None"
| "readVarint (b # bs) =
     (if b < 0x80 then Some (unat b, bs)
      else map_option (\<lambda>(v, rest). (unat (b AND 0x7f) + 128 * v, rest)) (readVarint bs))"

section \<open>Spatial index: merging byte ranges\<close>

text \<open>
  \<^verbatim>\<open>fgb/index.ts\<close>, \<^verbatim>\<open>mergeRanges\<close>.  Offsets and lengths are JavaScript numbers holding
  integers, modelled as \<open>int\<close>.  The field \<^verbatim>\<open>length\<close> is called \<open>length_r\<close>.
\<close>

record ByteRange =
  offset :: int
  length_r :: int

text \<open>One iteration of the \<^verbatim>\<open>for\<close> loop, from the array \<^verbatim>\<open>merged\<close> and \<^verbatim>\<open>ranges[i]\<close>.\<close>

definition mergeStep :: "int \<Rightarrow> ByteRange list \<Rightarrow> ByteRange \<Rightarrow> ByteRange list" where
  "mergeStep gap merged cur =
     (let prev = last merged;
          prevEnd = offset prev + length_r prev
      in if offset cur \<le> prevEnd + gap
         then (let newEnd = max prevEnd (offset cur + length_r cur)
               in butlast merged @ [prev\<lparr>length_r := newEnd - offset prev\<rparr>])
         else merged @ [cur])"

definition mergeRanges :: "ByteRange list \<Rightarrow> int \<Rightarrow> ByteRange list" where
  "mergeRanges ranges gap =
     (if length ranges \<le> 1 then ranges
      else foldl (mergeStep gap) [hd ranges] (tl ranges))"

definition GAP :: int where
  \<comment> \<open>the default value of the parameter \<^verbatim>\<open>gap\<close>\<close>
  "GAP = 512"

text \<open>
  The vocabulary of the merge property: the end of a range, the bytes a list of ranges
  covers, the largest end among a non-empty list of ranges, and the bytes of the gaps
  of at most \<open>gap\<close> bytes between the ranges read so far and the next one.
\<close>

definition rangeEnd :: "ByteRange \<Rightarrow> int" where
  "rangeEnd r = offset r + length_r r"

definition covered :: "ByteRange list \<Rightarrow> int set" where
  "covered rs = (\<Union>r \<in> set rs. {offset r ..< rangeEnd r})"

definition maxEnd :: "ByteRange list \<Rightarrow> int" where
  "maxEnd rs = Max (rangeEnd ` set rs)"

definition gapBytes :: "int \<Rightarrow> ByteRange list \<Rightarrow> int set" where
  "gapBytes gap rs =
     {b. \<exists>i. Suc i < length rs \<and>
              offset (rs ! Suc i) \<le> maxEnd (take (Suc i) rs) + gap \<and>
              maxEnd (take (Suc i) rs) \<le> b \<and> b < offset (rs ! Suc i)}"

text \<open>
  What holds of the array \<^verbatim>\<open>merged\<close> after the ranges \<open>rs\<close> have been read.
\<close>

definition mergeInv :: "int \<Rightarrow> ByteRange list \<Rightarrow> ByteRange list \<Rightarrow> bool" where
  "mergeInv gap rs out \<longleftrightarrow>
     out \<noteq> [] \<and>
     rangeEnd (last out) = maxEnd rs \<and>
     offset (last out) \<le> offset (last rs) \<and>
     (\<forall>r \<in> set out. 0 \<le> length_r r \<and> rangeEnd r \<le> maxEnd rs) \<and>
     covered out = covered rs \<union> gapBytes gap rs \<and>
     (\<forall>i j. i < j \<and> j < length out \<longrightarrow> rangeEnd (out ! i) + gap < offset (out ! j))"

text \<open>A sample input: the second range is coalesced, the third starts \<open>GAP + 1\<close> bytes after the merged end.\<close>

definition threeRanges :: "ByteRange list" where
  "threeRanges = [\<lparr>offset = 0, length_r = 10\<rparr>, \<lparr>offset = 100, length_r = 10\<rparr>,
     \<lparr>offset = 623, length_r = 10\<rparr>]"

section \<open>MVT geometry commands\<close>

text \<open>
  \<^verbatim>\<open>mvt/geometry.ts\<close>.  \<^verbatim>\<open>coords\<close> is an \<^verbatim>\<open>Int32Array\<close>, a list of integers; reading it
  out of range gives \<^verbatim>\<open>undefined\<close>, and arithmetic on \<^verbatim>\<open>undefined\<close> gives \<^verbatim>\<open>NaN\<close>:
  both are \<open>None\<close>.  The bitwise operators turn \<^verbatim>\<open>NaN\<close> into 0.
\<close>

definition coordAt :: "int list \<Rightarrow> nat \<Rightarrow> int option" where
  "coordAt coords i = (if i < length coords then Some (coords ! i) else None)"

definition js_sub :: "int option \<Rightarrow> int option \<Rightarrow> int option" where
  "js_sub a b = (case (a, b) of (Some x, Some y) \<Rightarrow> Some (x - y) | _ \<Rightarrow> None)"

definition zigzag :: "int \<Rightarrow> int" where
  "zigzag n = js_xor (js_shl n 1) (js_sar n 31)"

definition zigzagN :: "int option \<Rightarrow> int" where
  \<comment> \<open>\<^verbatim>\<open>zigzag\<close> applied to a number that may be \<^verbatim>\<open>NaN\<close>\<close>
  "zigzagN n = (case n of None \<Rightarrow> zigzag 0 | Some v \<Rightarrow> zigzag v)"

definition CMD_MOVE_TO :: int where "CMD_MOVE_TO = 1"
definition CMD_LINE_TO :: int where "CMD_LINE_TO = 2"
definition CMD_CLOSE_PATH :: int where "CMD_CLOSE_PATH = 7"

definition commandInt :: "int \<Rightarrow> int \<Rightarrow> int" where
  "commandInt cmd_id count = js_or (js_and cmd_id 0x7) (js_shl count 3)"

fun ringBoundsLoop :: "nat \<Rightarrow> nat list \<Rightarrow> (nat \<times> nat) list" where
  "ringBoundsLoop start [] = []"
| "ringBoundsLoop start (end # ends) =
     (if end > start then [(start, end)] else []) @ ringBoundsLoop end ends"

definition getRingBounds :: "nat \<Rightarrow> nat list option \<Rightarrow> (nat \<times> nat) list" where
  "getRingBounds totalPairs ends =
     (case ends of
        None \<Rightarrow> [(0, totalPairs)]
      | Some es \<Rightarrow> if length es = 0 then [(0, totalPairs)] else ringBoundsLoop 0 es)"

text \<open>
  The encoder state is the command array \<^verbatim>\<open>cmds\<close> and the cursor \<^verbatim>\<open>cx\<close>, \<^verbatim>\<open>cy\<close>.
  \<open>lineToStep\<close> is the body of the inner \<^verbatim>\<open>for\<close> loop over the pair index \<open>i\<close>,
  \<open>polygonRing\<close> the body of the loop over the rings.
\<close>

type_synonym enc_state = "int list \<times> int option \<times> int option"

definition lineToStep :: "int list \<Rightarrow> enc_state \<Rightarrow> nat \<Rightarrow> enc_state" where
  "lineToStep coords st i =
     (case st of (cmds, cx, cy) \<Rightarrow>
        let idx = i * 2
        in (cmds @ [zigzagN (js_sub (coordAt coords idx) cx),
                    zigzagN (js_sub (coordAt coords (idx + 1)) cy)],
            coordAt coords idx, coordAt coords (idx + 1)))"

definition polygonRing :: "int list \<Rightarrow> enc_state \<Rightarrow> nat \<times> nat \<Rightarrow> enc_state" where
  "polygonRing coords st ring =
     (case (st, ring) of ((cmds, cx, cy), (startPair, endPair)) \<Rightarrow>
        let numPairs = endPair - startPair
        in if numPairs < 3 then st
           else
             let si = startPair * 2;
                 lastIdx = (endPair - 1) * 2;
                 isClosed = (coordAt coords si = coordAt coords lastIdx \<and>
                             coordAt coords (si + 1) = coordAt coords (lastIdx + 1));
                 lineCount = (if isClosed then numPairs - 2 else numPairs - 1)
             in if lineCount < 2 then st
                else
                  let cmds1 = cmds @ [commandInt CMD_MOVE_TO 1] @
                                [zigzagN (js_sub (coordAt coords si) cx),
                                 zigzagN (js_sub (coordAt coords (si + 1)) cy)];
                      cmds2 = cmds1 @ [commandInt CMD_LINE_TO (int lineCount)];
                      lineEnd = (if isClosed then endPair - 1 else endPair)
                  in (case foldl (lineToStep coords)
                             (cmds2, coordAt coords si, coordAt coords (si + 1))
                             [startPair + 1 ..< lineEnd] of
                        (cmds3, cx', cy') \<Rightarrow> (cmds3 @ [commandInt CMD_CLOSE_PATH 1], cx', cy')))"

text \<open>
  \<^verbatim>\<open>coords.length / 2\<close> is the number of pairs; the flat array holds whole pairs, so the
  division is exact.
\<close>

definition encodePolygons :: "int list \<Rightarrow> nat list option \<Rightarrow> int list" where
  "encodePolygons coords ends =
     fst (foldl (polygonRing coords) ([], Some 0, Some 0)
            (getRingBounds (length coords div 2) ends))"

text \<open>
  The polygon encoding in the words of the specification, on rings given as lists of
  vertices.  The effective vertices of a ring leave out a last vertex that repeats the
  first; \<open>n\<close> is the number of vertices of the ring.
\<close>

fun spec_deltas :: "int \<times> int \<Rightarrow> (int \<times> int) list \<Rightarrow> int list" where
  "spec_deltas c [] = []"
| "spec_deltas (cx, cy) ((x, y) # ps) = zigzag (x - cx) # zigzag (y - cy) # spec_deltas (x, y) ps"

definition spec_closed :: "(int \<times> int) list \<Rightarrow> bool" where
  "spec_closed ring \<longleftrightarrow> ring \<noteq> [] \<and> last ring = hd ring"

definition spec_effective :: "(int \<times> int) list \<Rightarrow> (int \<times> int) list" where
  "spec_effective ring = (if spec_closed ring then butlast ring else ring)"

definition spec_ring :: "int \<times> int \<Rightarrow> (int \<times> int) list \<Rightarrow> int list \<times> (int \<times> int)" where
  "spec_ring c ring =
     (let n = length ring;
          k = (if spec_closed ring then n - 2 else n - 1);
          vs = spec_effective ring
      in if 3 \<le> length vs
         then ([commandInt CMD_MOVE_TO 1] @ spec_deltas c [hd vs] @
               [commandInt CMD_LINE_TO (int k)] @ spec_deltas (hd vs) (tl vs) @
               [commandInt CMD_CLOSE_PATH 1], last vs)
         else ([], c))"

fun spec_polygons :: "int \<times> int \<Rightarrow> (int \<times> int) list list \<Rightarrow> int list" where
  "spec_polygons c [] = []"
| "spec_polygons c (ring # rings) =
     (case spec_ring c ring of (cmds, c') \<Rightarrow> cmds @ spec_polygons c' rings)"

text \<open>The rings of a flat coordinate array: its vertices, cut at the entries of \<open>ends\<close>.\<close>

fun pairsOf :: "int list \<Rightarrow> (int \<times> int) list" where
  "pairsOf (x # y # rest) = (x, y) # pairsOf rest"
| "pairsOf _ = []"

fun cutRings :: "nat \<Rightarrow> nat list \<Rightarrow> 'a list \<Rightarrow> 'a list list" where
  "cutRings start [] ps = []"
| "cutRings start (e # es) ps = take (e - start) (drop start ps) # cutRings e es ps"

definition ringsOf :: "int list \<Rightarrow> nat list option \<Rightarrow> (int \<times> int) list list" where
  "ringsOf coords ends =
     (case ends of
        None \<Rightarrow> [pairsOf coords]
      | Some es \<Rightarrow> if es = [] then [pairsOf coords] else cutRings 0 es (pairsOf coords))"

definition closedTriangle :: "int list" where
  "closedTriangle = [0, 0, 10, 0, 10, 10, 0, 0]"

text \<open>The vertices \<open>s, \<dots>, e - 1\<close> of a vertex list.\<close>

definition slice :: "'a list \<Rightarrow> nat \<Rightarrow> nat \<Rightarrow> 'a list" where
  "slice ps s e = take (e - s) (drop s ps)"

text \<open>
  The invariant of the data model on \<open>ends\<close>: cumulative pair counts, non-decreasing and
  at most the number of pairs.
\<close>

definition wellFormedEnds :: "nat \<Rightarrow> nat list option \<Rightarrow> bool" where
  "wellFormedEnds totalPairs ends =
     (case ends of None \<Rightarrow> True | Some es \<Rightarrow> sorted es \<and> (\<forall>e \<in> set es. e \<le> totalPairs))"

section \<open>Winding order correction\<close>

text \<open>
  \<^verbatim>\<open>geometry/transform.ts\<close>.  \<^verbatim>\<open>coords\<close> is the \<^verbatim>\<open>Int32Array\<close> of tile coordinates,
  mutated in place: the functions return the new array.  Element indices are JavaScript
  numbers (\<^verbatim>\<open>end - 2\<close> may be negative), modelled as \<open>int\<close>; a read outside the array
  is \<^verbatim>\<open>undefined\<close>, a product or sum with it \<^verbatim>\<open>NaN\<close> (both \<open>None\<close>), a store outside
  the array is ignored, and storing \<^verbatim>\<open>undefined\<close> stores 0.

  The shoelace sum of \<^verbatim>\<open>signedArea\<close> is computed in doubles: every difference, sum and
  product is rounded to the nearest number with 53 significant bits, ties to even
  (\<open>roundDouble\<close>).  The elements are 32-bit integers, so the values stay whole and far
  below the largest double.
\<close>

type_synonym GeomType = nat

definition GT_Unknown :: GeomType where "GT_Unknown = 0"
definition GT_Point :: GeomType where "GT_Point = 1"
definition GT_LineString :: GeomType where "GT_LineString = 2"
definition GT_Polygon :: GeomType where "GT_Polygon = 3"
definition GT_MultiPoint :: GeomType where "GT_MultiPoint = 4"
definition GT_MultiLineString :: GeomType where "GT_MultiLineString = 5"
definition GT_MultiPolygon :: GeomType where "GT_MultiPolygon = 6"

definition elemAt :: "int list \<Rightarrow> int \<Rightarrow> int option" where
  "elemAt coords i = (if 0 \<le> i \<and> i < int (length coords) then Some (coords ! nat i) else None)"

definition setElem :: "int list \<Rightarrow> int \<Rightarrow> int option \<Rightarrow> int list" where
  "setElem coords i v =
     (if 0 \<le> i \<and> i < int (length coords)
      then coords[nat i := (case v of None \<Rightarrow> 0 | Some x \<Rightarrow> x)]
      else coords)"

function excessBits :: "int \<Rightarrow> nat" where
  \<comment> \<open>the number of bits of \<open>a\<close> beyond 53\<close>
  "excessBits a = (if a < 2 ^ 53 then 0 else Suc (excessBits (a div 2)))"
  by pat_completeness auto
termination
  by (relation "measure nat") auto

declare excessBits.simps [simp del]

definition roundDouble :: "int \<Rightarrow> int" where
  "roundDouble v =
     (let a = \<bar>v\<bar>; e = excessBits a in
      if e = 0 then v
      else
        let q = a div 2 ^ e; r = a mod 2 ^ e; h = 2 ^ (e - 1);
            q' = (if r > h \<or> (r = h \<and> odd q) then q + 1 else q)
        in sgn v * (q' * 2 ^ e))"

definition num_sub :: "int option \<Rightarrow> int option \<Rightarrow> int option" where
  "num_sub a b = (case (a, b) of (Some x, Some y) \<Rightarrow> Some (roundDouble (x - y)) | _ \<Rightarrow> None)"

definition num_add :: "int option \<Rightarrow> int option \<Rightarrow> int option" where
  "num_add a b = (case (a, b) of (Some x, Some y) \<Rightarrow> Some (roundDouble (x + y)) | _ \<Rightarrow> None)"

definition num_mul :: "int option \<Rightarrow> int option \<Rightarrow> int option" where
  "num_mul a b = (case (a, b) of (Some x, Some y) \<Rightarrow> Some (roundDouble (x * y)) | _ \<Rightarrow> None)"

definition js_gt0 :: "int option \<Rightarrow> bool" where
  \<comment> \<open>\<^verbatim>\<open>area > 0\<close>, false for \<^verbatim>\<open>NaN\<close>\<close>
  "js_gt0 a = (case a of None \<Rightarrow> False | Some x \<Rightarrow> x > 0)"

function signedAreaLoop :: "int list \<Rightarrow> int \<Rightarrow> int \<Rightarrow> int \<Rightarrow> int option \<Rightarrow> int option" where
  "signedAreaLoop coords end i j area =
     (if i < end
      then signedAreaLoop coords end (i + 2) i
             (num_add area
                (num_mul (num_sub (elemAt coords i) (elemAt coords j))
                         (num_add (elemAt coords (i + 1)) (elemAt coords (j + 1)))))
      else area)"
  by pat_completeness auto
termination
  by (relation "measure (\<lambda>(coords, end, i, j, area). nat (end - i))") auto

declare signedAreaLoop.simps [simp del]

definition signedArea :: "int list \<Rightarrow> int \<Rightarrow> int \<Rightarrow> int option" where
  "signedArea coords start end = signedAreaLoop coords end start (end - 2) (Some 0)"

text \<open>
  \<^verbatim>\<open>half = ((end - start) / 2) | 0\<close> truncates the quotient towards zero and keeps 32
  bits.
\<close>

definition truncHalf :: "int \<Rightarrow> int" where
  "truncHalf d = toInt32 (sgn d * (\<bar>d\<bar> div 2))"

definition swapPairs :: "int list \<Rightarrow> int \<Rightarrow> int \<Rightarrow> int list" where
  "swapPairs coords li ri =
     (let tx = elemAt coords li;
          ty = elemAt coords (li + 1);
          c1 = setElem coords li (elemAt coords ri);
          c2 = setElem c1 (li + 1) (elemAt c1 (ri + 1));
          c3 = setElem c2 ri tx
      in setElem c3 (ri + 1) ty)"

function reverseLoop :: "int list \<Rightarrow> int \<Rightarrow> int \<Rightarrow> int \<Rightarrow> int \<Rightarrow> int list" where
  "reverseLoop coords start end half i =
     (if i < half
      then reverseLoop (swapPairs coords (start + i) (end - 2 - i)) start end half (i + 2)
      else coords)"
  by pat_completeness auto
termination
  by (relation "measure (\<lambda>(coords, start, end, half, i). nat (half - i))") auto

declare reverseLoop.simps [simp del]

definition reverseRing :: "int list \<Rightarrow> int \<Rightarrow> int \<Rightarrow> int list" where
  "reverseRing coords start end = reverseLoop coords start end (truncHalf (end - start)) 0"

definition ensureWinding :: "int list \<Rightarrow> int \<Rightarrow> int \<Rightarrow> bool \<Rightarrow> int list" where
  "ensureWinding coords start end clockwise =
     (let area = signedArea coords start end
      in if js_gt0 area \<noteq> clockwise then reverseRing coords start end else coords)"

text \<open>
  The loop of \<^verbatim>\<open>correctWinding\<close> over the ring index \<open>i\<close>, with the running \<^verbatim>\<open>start\<close>.
  A \<^verbatim>\<open>Uint32Array\<close> is truthy even when empty, so \<^verbatim>\<open>parts\<close> decides the exterior
  set whenever it is not \<^verbatim>\<open>null\<close>.
\<close>

fun windingLoop :: "nat set \<Rightarrow> int list \<Rightarrow> int \<Rightarrow> nat \<Rightarrow> nat list \<Rightarrow> int list" where
  "windingLoop exteriorSet coords start i [] = coords"
| "windingLoop exteriorSet coords start i (e # ends) =
     (let end = int e * 2;
          isExterior = (i \<in> exteriorSet)
      in windingLoop exteriorSet (ensureWinding coords start end isExterior) end (i + 1) ends)"

definition correctWinding ::
  "int list \<Rightarrow> nat list option \<Rightarrow> GeomType \<Rightarrow> nat list option \<Rightarrow> int list" where
  "correctWinding coords ends geomType parts =
     (if geomType \<noteq> GT_Polygon \<and> geomType \<noteq> GT_MultiPolygon then coords
      else case ends of
        None \<Rightarrow> ensureWinding coords 0 (int (length coords)) True
      | Some es \<Rightarrow>
          if length es \<le> 1 then ensureWinding coords 0 (int (length coords)) True
          else windingLoop (case parts of Some ps \<Rightarrow> set ps | None \<Rightarrow> {0}) coords 0 0 es)"

text \<open>
  The shoelace sum of a ring of vertices, \<open>\<Sum> (x\<^sub>i - x\<^sub>i\<^sub>-\<^sub>1) * (y\<^sub>i + y\<^sub>i\<^sub>-\<^sub>1)\<close>, the vertex
  before the first being the last.
\<close>

fun pathSum :: "int \<times> int \<Rightarrow> (int \<times> int) list \<Rightarrow> int" where
  "pathSum p [] = 0"
| "pathSum (px, py) ((x, y) # ps) = (x - px) * (y + py) + pathSum (x, y) ps"

definition shoelace :: "(int \<times> int) list \<Rightarrow> int" where
  "shoelace ring = (if ring = [] then 0 else pathSum (last ring) ring)"

text \<open>Ring \<open>i\<close> of a geometry with ring ends \<open>es\<close>: its vertices.\<close>

definition ringStart :: "nat list \<Rightarrow> nat \<Rightarrow> nat" where
  "ringStart es i = (if i = 0 then 0 else es ! (i - 1))"

definition ringAt :: "int list \<Rightarrow> nat list \<Rightarrow> nat \<Rightarrow> (int \<times> int) list" where
  "ringAt coords es i = slice (pairsOf coords) (ringStart es i) (es ! i)"

text \<open>
  The vertices \<open>qs\<close> after \<open>t\<close> iterations of the loop of \<^verbatim>\<open>reverseRing\<close> on the ring
  \<open>a, \<dots>, b - 1\<close> of \<open>ps\<close>: the first and the last \<open>t\<close> vertices of the ring are mirrored.
\<close>

definition partlyReversed ::
  "'a list \<Rightarrow> nat \<Rightarrow> nat \<Rightarrow> nat \<Rightarrow> 'a list \<Rightarrow> bool" where
  "partlyReversed ps a b t qs \<longleftrightarrow>
     length qs = length ps \<and>
     (\<forall>k < length ps. qs ! k =
        (if a \<le> k \<and> k < b \<and> (k < a + t \<or> b \<le> k + t) then ps ! (a + b - 1 - k) else ps ! k))"

text \<open>
  The rings designated exterior: ring 0 when \<open>parts\<close> is absent, every index listed in
  \<open>parts\<close> otherwise.
\<close>

definition exteriorRings :: "nat list option \<Rightarrow> nat set" where
  "exteriorRings parts = (case parts of None \<Rightarrow> {0} | Some ps \<Rightarrow> set ps)"

text \<open>Vertices whose coordinates are at most \<open>M\<close> in absolute value.\<close>

definition boundedBy :: "int \<Rightarrow> (int \<times> int) list \<Rightarrow> bool" where
  "boundedBy M ps \<longleftrightarrow> (\<forall>k < length ps. \<bar>fst (ps ! k)\<bar> \<le> M \<and> \<bar>snd (ps ! k)\<bar> \<le> M)"

text \<open>
  Sample inputs: a square with a square hole, both wound the same way, and three
  collinear vertices.
\<close>

definition squareWithHole :: "int list" where
  "squareWithHole = [0, 0, 100, 0, 100, 100, 0, 100, 20, 20, 80, 20, 80, 80, 20, 80]"

definition collinearRing :: "int list" where
  "collinearRing = [0, 0, 1, 1, 2, 2]"

text \<open>
  A triangle of 32-bit coordinates whose shoelace sum is \<open>-1\<close>, and which \<^verbatim>\<open>signedArea\<close>
  computes as 3: the products exceed \<open>2 ^ 53\<close> and are rounded.
\<close>

definition largeTriangle :: "int list" where
  "largeTriangle = [0, 0, 1073741826, 1073741825, 1073741827, 1073741826]"

section \<open>Douglas-Peucker simplification\<close>

text \<open>
  \<^verbatim>\<open>geometry/simplify.ts\<close>.  Coordinates and distances are JavaScript numbers, modelled
  as \<open>real\<close>: the arithmetic is exact, as the floating-point arithmetic is on the dyadic
  inputs used below.  An entry of the \<^verbatim>\<open>importance\<close> array is a number or \<^verbatim>\<open>Infinity\<close>.
  The array \<^verbatim>\<open>xy\<close> holds whole pairs, and \<^verbatim>\<open>n / 2\<close> is its number of pairs; \<open>dpMark\<close>
  reads only the pairs \<open>first, \<dots>, last\<close>, which \<open>simplify\<close> takes inside the array.
\<close>

datatype importance = Infinity | Finite real

definition exceeds :: "importance \<Rightarrow> real \<Rightarrow> bool" where
  \<comment> \<open>\<^verbatim>\<open>importance[i] > sqTolerance\<close>\<close>
  "exceeds v sqTolerance = (case v of Infinity \<Rightarrow> True | Finite d \<Rightarrow> d > sqTolerance)"

definition sqSegDist :: "real \<Rightarrow> real \<Rightarrow> real \<Rightarrow> real \<Rightarrow> real \<Rightarrow> real \<Rightarrow> real" where
  "sqSegDist px py ax ay bx by =
     (let dx = bx - ax;
          dy = by - ay;
          (x, y) =
            (if dx \<noteq> 0 \<or> dy \<noteq> 0
             then (let t = ((px - ax) * dx + (py - ay) * dy) / (dx * dx + dy * dy)
                   in if t > 1 then (bx, by)
                      else if t > 0 then (ax + dx * t, ay + dy * t)
                      else (ax, ay))
             else (ax, ay));
          dx' = px - x;
          dy' = py - y
      in dx' * dx' + dy' * dy')"

text \<open>
  The \<^verbatim>\<open>for\<close> loop of \<^verbatim>\<open>dpMark\<close>: the state is \<^verbatim>\<open>maxSqDist\<close>, \<^verbatim>\<open>index\<close> (\<open>-1\<close> while no
  point is chosen) and \<^verbatim>\<open>minPosToMid\<close>.
\<close>

definition dpScanStep ::
  "real list \<Rightarrow> nat \<Rightarrow> nat \<Rightarrow> int \<Rightarrow> real \<times> int \<times> int \<Rightarrow> nat \<Rightarrow> real \<times> int \<times> int" where
  "dpScanStep xy first last_pt mid st i =
     (let maxSqDist = fst st; index = fst (snd st); minPosToMid = snd (snd st);
          d = sqSegDist (xy ! (i * 2)) (xy ! (i * 2 + 1))
                (xy ! (first * 2)) (xy ! (first * 2 + 1))
                (xy ! (last_pt * 2)) (xy ! (last_pt * 2 + 1))
      in if d > maxSqDist then (d, int i, minPosToMid)
         else if d = maxSqDist
         then (let posToMid = \<bar>int i - mid\<bar>
               in if posToMid < minPosToMid then (maxSqDist, int i, posToMid)
                  else (maxSqDist, index, minPosToMid))
         else (maxSqDist, index, minPosToMid))"

fun dpScan ::
  "real list \<Rightarrow> nat \<Rightarrow> nat \<Rightarrow> int \<Rightarrow> real \<times> int \<times> int \<Rightarrow> nat list \<Rightarrow> real \<times> int \<times> int" where
  "dpScan xy first last_pt mid st [] = st"
| "dpScan xy first last_pt mid st (i # is) =
     dpScan xy first last_pt mid (dpScanStep xy first last_pt mid st i) is"

definition dpChoose :: "real list \<Rightarrow> nat \<Rightarrow> nat \<Rightarrow> real \<times> int" where
  "dpChoose xy first last_pt =
     (let mid = (int first + int last_pt) div 2;
          st = dpScan xy first last_pt mid (0, -1, int last_pt - int first) [first + 1 ..< last_pt]
      in (fst st, fst (snd st)))"

function dpMark :: "real list \<Rightarrow> importance list \<Rightarrow> nat \<Rightarrow> nat \<Rightarrow> importance list" where
  "dpMark xy importance first last_pt =
     (let maxSqDist = fst (dpChoose xy first last_pt);
          index = snd (dpChoose xy first last_pt)
      in if index \<ge> 0 \<and> maxSqDist > 0
         then (let imp1 = importance[nat index := Finite maxSqDist];
                   imp2 = (if index - int first > 1 then dpMark xy imp1 first (nat index)
                           else imp1)
               in if int last_pt - index > 1 then dpMark xy imp2 (nat index) last_pt else imp2)
         else importance)"
  by pat_completeness auto

termination
proof (relation "measure (\<lambda>(xy, importance, first, last_pt). last_pt - first)")
  have scan: "fst (snd (dpScan xy first last_pt mid st is)) = fst (snd st) \<or>
      (\<exists>i \<in> set is. fst (snd (dpScan xy first last_pt mid st is)) = int i)"
    for xy first last_pt mid st "is"
  proof (induction "is" arbitrary: st)
    case Nil
    then show ?case by simp
  next
    case (Cons i "is")
    have "fst (snd (dpScanStep xy first last_pt mid st i)) = fst (snd st) \<or>
        fst (snd (dpScanStep xy first last_pt mid st i)) = int i"
      by (simp add: dpScanStep_def Let_def)
    with Cons [of "dpScanStep xy first last_pt mid st i"] show ?case by auto
  qed
  have choose: "first < nat (snd (dpChoose xy first last_pt)) \<and>
      nat (snd (dpChoose xy first last_pt)) < last_pt"
    if "snd (dpChoose xy first last_pt) \<ge> 0" for xy first last_pt
    using that scan [of xy first last_pt "(int first + int last_pt) div 2"
        "(0, -1, int last_pt - int first)" "[first + 1 ..< last_pt]"]
    by (auto simp: dpChoose_def Let_def)
  show "wf (measure (\<lambda>(xy, importance, first, last_pt). last_pt - first))" by simp
  show "((xy, imp1, first, nat index), xy, importance, first, last_pt)
        \<in> measure (\<lambda>(xy, importance, first, last_pt). last_pt - first)"
    if "index = snd (dpChoose xy first last_pt)" and "0 \<le> index \<and> 0 < maxSqDist"
    for xy importance first last_pt maxSqDist index imp1
    using that choose [of xy first last_pt] by auto
  show "((xy, imp2, nat index, last_pt), xy, importance, first, last_pt)
        \<in> measure (\<lambda>(xy, importance, first, last_pt). last_pt - first)"
    if "index = snd (dpChoose xy first last_pt)" and "0 \<le> index \<and> 0 < maxSqDist"
    for xy importance first last_pt maxSqDist index imp2
    using that choose [of xy first last_pt] by auto
qed

declare dpMark.simps [simp del]

definition emitKept :: "real list \<Rightarrow> importance list \<Rightarrow> real \<Rightarrow> nat \<Rightarrow> real list" where
  \<comment> \<open>the body of the filter loop: the numbers pushed to \<^verbatim>\<open>out\<close> for pair \<open>i\<close>\<close>
  "emitKept xy importance sqTolerance i =
     (if exceeds (importance ! i) sqTolerance then [xy ! (i * 2), xy ! (i * 2 + 1)] else [])"

definition simplify :: "real list \<Rightarrow> real \<Rightarrow> real list" where
  "simplify xy sqTolerance =
     (let n = length xy
      in if n \<le> 4 then xy
         else
           (let importance0 = (replicate (n div 2) (Finite 0))
                                [0 := Infinity, n div 2 - 1 := Infinity];
                importance = dpMark xy importance0 0 (n div 2 - 1)
            in concat (map (emitKept xy importance sqTolerance) [0 ..< n div 2])))"

text \<open>A sample line of four vertices.\<close>

definition hookLine :: "real list" where
  "hookLine = [0, 0, 8, 1 / 2, 5, 1, 16, 0]"

section \<open>Typed arrays and DataView reads\<close>

text \<open>
  A JavaScript exception is a value of type \<open>error\<close>; a function that can throw returns
  \<open>error + 'a\<close>, with \<open>Inl\<close> the exception. \<open>RangeError\<close> is what a \<open>DataView\<close> getter
  and a typed-array constructor raise on an access outside their buffer, \<open>TypeError\<close> what
  reading a property of \<open>undefined\<close> raises, \<open>Error\<close> a \<open>throw new Error(message)\<close>.
\<close>

datatype error = RangeError | TypeError | Error string

definition bindE :: "error + 'a \<Rightarrow> ('a \<Rightarrow> error + 'b) \<Rightarrow> error + 'b" where
  "bindE m f = (case m of Inl e \<Rightarrow> Inl e | Inr x \<Rightarrow> f x)"

text \<open>
  A \<open>Uint8Array\<close> and a \<open>DataView\<close> are windows on an \<open>ArrayBuffer\<close>: the buffer, the ofs
  of the window and its length. Several windows share one buffer.
\<close>

record ArrayView =
  buffer :: "byte list"
  byteOffset :: nat
  byteLength :: nat

type_synonym Uint8Array = ArrayView
type_synonym DataView = ArrayView

definition window :: "ArrayView \<Rightarrow> byte list" where
  "window a = take (byteLength a) (drop (byteOffset a) (buffer a))"

text \<open>
  \<open>new Uint8Array(buffer, byteOffset, length)\<close> and \<open>new DataView(buffer, byteOffset,
  byteLength)\<close>: a \<open>RangeError\<close> when the window does not lie inside the buffer.
\<close>

definition newView :: "byte list \<Rightarrow> int \<Rightarrow> int \<Rightarrow> error + ArrayView" where
  "newView b off len =
     (if 0 \<le> off \<and> 0 \<le> len \<and> off + len \<le> int (length b)
      then Inr \<lparr>buffer = b, byteOffset = nat off, byteLength = nat len\<rparr>
      else Inl RangeError)"

text \<open>\<open>bytes.subarray(begin, end)\<close> for non-negative arguments, clamped to the array.\<close>

definition subarray :: "Uint8Array \<Rightarrow> nat \<Rightarrow> nat \<Rightarrow> Uint8Array" where
  "subarray a b e =
     (let b' = min b (byteLength a); e' = min e (byteLength a) in
      \<lparr>buffer = buffer a, byteOffset = byteOffset a + b', byteLength = e' - b'\<rparr>)"

fun leValue :: "byte list \<Rightarrow> int" where
  "leValue [] = 0"
| "leValue (b # bs) = uint b + 256 * leValue bs"

text \<open>
  The little-endian getters of a \<open>DataView\<close>: \<open>n\<close> bytes at \<open>off\<close>, a \<open>RangeError\<close> when
  they do not lie inside the view.
\<close>

definition getUintLE :: "nat \<Rightarrow> DataView \<Rightarrow> int \<Rightarrow> error + int" where
  "getUintLE n v off =
     (if 0 \<le> off \<and> off + int n \<le> int (byteLength v)
      then Inr (leValue (take n (drop (nat off) (window v))))
      else Inl RangeError)"

definition toSigned :: "nat \<Rightarrow> int \<Rightarrow> int" where
  "toSigned bits u = (if 2 ^ (bits - 1) \<le> u then u - 2 ^ bits else u)"

definition getIntLE :: "nat \<Rightarrow> DataView \<Rightarrow> int \<Rightarrow> error + int" where
  "getIntLE n v off = bindE (getUintLE n v off) (\<lambda>u. Inr (toSigned (8 * n) u))"

definition getUint8 :: "DataView \<Rightarrow> int \<Rightarrow> error + int" where
  "getUint8 = getUintLE 1"
definition getInt8 :: "DataView \<Rightarrow> int \<Rightarrow> error + int" where
  "getInt8 = getIntLE 1"
definition getUint16 :: "DataView \<Rightarrow> int \<Rightarrow> error + int" where
  "getUint16 = getUintLE 2"
definition getInt16 :: "DataView \<Rightarrow> int \<Rightarrow> error + int" where
  "getInt16 = getIntLE 2"
definition getUint32 :: "DataView \<Rightarrow> int \<Rightarrow> error + int" where
  "getUint32 = getUintLE 4"
definition getInt32 :: "DataView \<Rightarrow> int \<Rightarrow> error + int" where
  "getInt32 = getIntLE 4"

text \<open>
  A float is kept as its IEEE-754 bit pattern (the little-endian value of its bytes): the
  number it denotes is a function of these bits, and nothing below computes with it.
\<close>

definition getFloat32 :: "DataView \<Rightarrow> int \<Rightarrow> error + int" where
  "getFloat32 = getUintLE 4"
definition getFloat64 :: "DataView \<Rightarrow> int \<Rightarrow> error + int" where
  "getFloat64 = getUintLE 8"


section \<open>FlatGeobuf features: properties\<close>

text \<open>
  \<open>decodeProperties\<close> and \<open>readPropertyValue\<close> of \<open>fgb/feature.ts\<close>. The column type is the
  number read from the header, so a type outside the enum is a value like any other.
\<close>

type_synonym ColumnType = nat

definition CT_Byte :: ColumnType where "CT_Byte = 0"
definition CT_UByte :: ColumnType where "CT_UByte = 1"
definition CT_Bool :: ColumnType where "CT_Bool = 2"
definition CT_Short :: ColumnType where "CT_Short = 3"
definition CT_UShort :: ColumnType where "CT_UShort = 4"
definition CT_Int :: ColumnType where "CT_Int = 5"
definition CT_UInt :: ColumnType where "CT_UInt = 6"
definition CT_Long :: ColumnType where "CT_Long = 7"
definition CT_ULong :: ColumnType where "CT_ULong = 8"
definition CT_Float :: ColumnType where "CT_Float = 9"
definition CT_Double :: ColumnType where "CT_Double = 10"
definition CT_String :: ColumnType where "CT_String = 11"
definition CT_Json :: ColumnType where "CT_Json = 12"
definition CT_DateTime :: ColumnType where "CT_DateTime = 13"
definition CT_Binary :: ColumnType where "CT_Binary = 14"

record ColumnMeta =
  name_c :: string
  type_c :: ColumnType
  nullable :: bool

text \<open>
  A property value: \<open>null\<close>, a boolean, a number (an integer, or a float as its bits), a
  string (the UTF-8 bytes that \<open>TextDecoder\<close> decodes) or a \<open>Uint8Array\<close> (its contents). The
  sum \<open>hi * 0x100000000 + lo\<close> of a 64-bit column is the exact integer, which JavaScript
  rounds to a double above \<open>2^53\<close>.
\<close>

datatype PropertyValue =
  PNull | PBool bool | PInt int | PFloat32 int | PFloat64 int
  | PString "byte list" | PBinary "byte list"

definition readPropertyValue ::
  "DataView \<Rightarrow> Uint8Array \<Rightarrow> int \<Rightarrow> ColumnType \<Rightarrow> error + (PropertyValue \<times> int)" where
  "readPropertyValue view bytes ofs ty =
    (if ty = CT_Bool then bindE (getUint8 view ofs) (\<lambda>v. Inr (PBool (v \<noteq> 0), 1))
     else if ty = CT_Byte then bindE (getInt8 view ofs) (\<lambda>v. Inr (PInt v, 1))
     else if ty = CT_UByte then bindE (getUint8 view ofs) (\<lambda>v. Inr (PInt v, 1))
     else if ty = CT_Short then bindE (getInt16 view ofs) (\<lambda>v. Inr (PInt v, 2))
     else if ty = CT_UShort then bindE (getUint16 view ofs) (\<lambda>v. Inr (PInt v, 2))
     else if ty = CT_Int then bindE (getInt32 view ofs) (\<lambda>v. Inr (PInt v, 4))
     else if ty = CT_UInt then bindE (getUint32 view ofs) (\<lambda>v. Inr (PInt v, 4))
     else if ty = CT_Float then bindE (getFloat32 view ofs) (\<lambda>v. Inr (PFloat32 v, 4))
     else if ty = CT_Long then
       bindE (getUint32 view ofs) (\<lambda>lo.
       bindE (getInt32 view (ofs + 4)) (\<lambda>hi.
       Inr (PInt (hi * 0x100000000 + lo), 8)))
     else if ty = CT_ULong then
       bindE (getUint32 view ofs) (\<lambda>lo.
       bindE (getUint32 view (ofs + 4)) (\<lambda>hi.
       Inr (PInt (hi * 0x100000000 + lo), 8)))
     else if ty = CT_Double then bindE (getFloat64 view ofs) (\<lambda>v. Inr (PFloat64 v, 8))
     else if ty = CT_String \<or> ty = CT_Json \<or> ty = CT_DateTime then
       (if ofs + 4 > int (byteLength bytes) then Inr (PNull, 0)
        else bindE (getUint32 view ofs) (\<lambda>strLen.
          if ofs + 4 + strLen > int (byteLength bytes) then Inr (PNull, 0)
          else Inr (PString (window (subarray bytes (nat (ofs + 4)) (nat (ofs + 4 + strLen)))),
                    4 + strLen)))
     else if ty = CT_Binary then
       (if ofs + 4 > int (byteLength bytes) then Inr (PNull, 0)
        else bindE (getUint32 view ofs) (\<lambda>binLen.
          if ofs + 4 + binLen > int (byteLength bytes) then Inr (PNull, 0)
          else bindE (newView (buffer bytes) (int (byteOffset bytes) + ofs + 4) binLen) (\<lambda>bin.
            Inr (PBinary (window bin), 4 + binLen))))
     else Inr (PNull, 0))"

text \<open>
  The property map is a JavaScript \<open>Map\<close>, which keeps its keys in insertion order:
  \<open>props.set\<close> replaces the value of a key that is present, in place, and appends a new key.
\<close>

type_synonym Properties = "(string \<times> PropertyValue) list"

fun mapSet :: "'k \<Rightarrow> 'v \<Rightarrow> ('k \<times> 'v) list \<Rightarrow> ('k \<times> 'v) list" where
  "mapSet k v [] = [(k, v)]"
| "mapSet k v (p # ps) = (if fst p = k then (k, v) # ps else p # mapSet k v ps)"

text \<open>
  The \<open>while\<close> loop of \<open>decodeProperties\<close>, on the properties bytes \<open>propsBytes\<close> (of length
  \<open>propsLen\<close>) and the view on them.
\<close>

lemma leValue_nonneg: "0 \<le> leValue bs"
  by (induction bs) auto

lemma getUintLE_nonneg: "getUintLE n v off = Inr u \<Longrightarrow> 0 \<le> u"
  by (auto simp: getUintLE_def leValue_nonneg split: if_splits)

lemma readPropertyValue_bytesRead:
  assumes "readPropertyValue view bytes ofs ty = Inr (val, bytesRead)"
  shows "0 \<le> bytesRead"
proof -
  have len: "\<And>off u. getUint32 view off = Inr u \<Longrightarrow> 0 \<le> u"
    unfolding getUint32_def by (rule getUintLE_nonneg)
  from assms show ?thesis
    unfolding readPropertyValue_def bindE_def
    by (auto split: if_splits sum.splits dest: len)
qed

function propsLoop ::
  "DataView \<Rightarrow> Uint8Array \<Rightarrow> ColumnMeta list \<Rightarrow> int \<Rightarrow> Properties \<Rightarrow> error + Properties" where
  "propsLoop view propsBytes columns ofs props =
    (if ofs < int (byteLength propsBytes) then
       if ofs + 2 > int (byteLength propsBytes) then Inr props
       else
         case getUint16 view ofs of
           Inl e \<Rightarrow> Inl e
         | Inr colIdx \<Rightarrow>
             if colIdx \<ge> int (length columns) then Inr props
             else
               let col = columns ! nat colIdx in
               (case readPropertyValue view propsBytes (ofs + 2) (type_c col) of
                  Inl e \<Rightarrow> Inl e
                | Inr (val, bytesRead) \<Rightarrow>
                    propsLoop view propsBytes columns (ofs + 2 + bytesRead)
                      (mapSet (name_c col) val props))
     else Inr props)"
  by pat_completeness auto
termination
proof (relation "measure (\<lambda>(view, propsBytes, columns, ofs, props).
                   nat (int (byteLength propsBytes) - ofs))", goal_cases)
  case 1
  show ?case by simp
next
  case (2 view propsBytes columns ofs props colIdx col x val bytesRead)
  then have "0 \<le> bytesRead"
    using readPropertyValue_bytesRead by metis
  with 2 show ?case by simp
qed

declare propsLoop.simps [simp del]


section \<open>FlatBuffer reader\<close>

text \<open>
  \<open>FlatBufferReader\<close> of \<open>fgb/flatbuffers.ts\<close>, constructed with its default offset 0 as at
  every call site: the view is the window of \<open>bytes\<close>. The scalar reads go through the view;
  \<open>readBytes\<close> and the aligned paths of the array reads build a typed array on the whole
  buffer, from the view's offset. The fields \<open>view\<close> and \<open>bytes\<close> are \<open>view_r\<close> and \<open>bytes_r\<close>.
\<close>

record FlatBufferReader =
  view_r :: DataView
  bytes_r :: Uint8Array

definition newFlatBufferReader :: "Uint8Array \<Rightarrow> error + FlatBufferReader" where
  "newFlatBufferReader b =
     bindE (newView (buffer b) (int (byteOffset b)) (int (byteLength b))) (\<lambda>v.
     Inr \<lparr>view_r = v, bytes_r = b\<rparr>)"

definition readUint8 :: "FlatBufferReader \<Rightarrow> int \<Rightarrow> error + int" where
  "readUint8 fb ofs = getUint8 (view_r fb) ofs"

definition readUint16 :: "FlatBufferReader \<Rightarrow> int \<Rightarrow> error + int" where
  "readUint16 fb ofs = getUint16 (view_r fb) ofs"

definition readInt32 :: "FlatBufferReader \<Rightarrow> int \<Rightarrow> error + int" where
  "readInt32 fb ofs = getInt32 (view_r fb) ofs"

definition readUint32 :: "FlatBufferReader \<Rightarrow> int \<Rightarrow> error + int" where
  "readUint32 fb ofs = getUint32 (view_r fb) ofs"

definition rootTableOffset :: "FlatBufferReader \<Rightarrow> error + int" where
  "rootTableOffset fb = readUint32 fb 0"

definition vtableOffset :: "FlatBufferReader \<Rightarrow> int \<Rightarrow> error + int" where
  "vtableOffset fb tablePos = bindE (readInt32 fb tablePos) (\<lambda>soffset. Inr (tablePos - soffset))"

definition fieldOffset :: "FlatBufferReader \<Rightarrow> int \<Rightarrow> int \<Rightarrow> error + int" where
  "fieldOffset fb tablePos fieldIndex =
     bindE (vtableOffset fb tablePos) (\<lambda>vtable.
     bindE (readUint16 fb vtable) (\<lambda>vtableSize.
     let slotOffset = 4 + fieldIndex * 2 in
     if slotOffset \<ge> vtableSize then Inr 0
     else bindE (readUint16 fb (vtable + slotOffset)) (\<lambda>fieldOff.
       if fieldOff = 0 then Inr 0 else Inr (tablePos + fieldOff))))"

definition indirect :: "FlatBufferReader \<Rightarrow> int \<Rightarrow> error + int" where
  "indirect fb p = bindE (readUint32 fb p) (\<lambda>v. Inr (p + v))"

definition vectorLen :: "FlatBufferReader \<Rightarrow> int \<Rightarrow> error + int" where
  "vectorLen fb vectorOffset = readUint32 fb vectorOffset"

definition vectorStart :: "int \<Rightarrow> int" where
  "vectorStart vectorOffset = vectorOffset + 4"

definition bufferOffset :: "FlatBufferReader \<Rightarrow> int \<Rightarrow> int" where
  "bufferOffset fb ofs =
     int (byteOffset (bytes_r fb)) + (int (byteOffset (view_r fb)) - int (byteOffset (bytes_r fb))) + ofs"

definition readBytes :: "FlatBufferReader \<Rightarrow> int \<Rightarrow> int \<Rightarrow> error + Uint8Array" where
  "readBytes fb ofs len = newView (buffer (bytes_r fb)) (bufferOffset fb ofs) len"

text \<open>The elements of a typed array of \<open>count\<close> elements of \<open>w\<close> bytes each.\<close>

definition elements :: "nat \<Rightarrow> ArrayView \<Rightarrow> int list" where
  "elements w a =
     map (\<lambda>i. leValue (take w (drop (i * w) (window a)))) [0..<byteLength a div w]"

text \<open>
  \<open>readFloat64Array\<close>: both paths read \<open>count\<close> doubles at the buffer offset and raise a
  \<open>RangeError\<close> outside the buffer (typed arrays are little-endian on every platform the
  library runs on). The doubles are kept as their bits.
\<close>

definition readFloat64Array :: "FlatBufferReader \<Rightarrow> int \<Rightarrow> int \<Rightarrow> error + int list" where
  "readFloat64Array fb ofs count =
     bindE (newView (buffer (bytes_r fb)) (bufferOffset fb ofs) (count * 8)) (\<lambda>a.
     Inr (elements 8 a))"

text \<open>
  \<open>readUint32Array\<close>: the aligned path reads on the buffer, the unaligned path element by
  element through the view.
\<close>

fun readUint32s :: "FlatBufferReader \<Rightarrow> int \<Rightarrow> nat \<Rightarrow> nat \<Rightarrow> error + int list" where
  "readUint32s fb ofs i 0 = Inr []"
| "readUint32s fb ofs i (Suc n) =
     bindE (readUint32 fb (ofs + int i * 4)) (\<lambda>v.
     bindE (readUint32s fb ofs (Suc i) n) (\<lambda>vs. Inr (v # vs)))"

definition readUint32Array :: "FlatBufferReader \<Rightarrow> int \<Rightarrow> int \<Rightarrow> error + int list" where
  "readUint32Array fb ofs count =
     (if bufferOffset fb ofs mod 4 = 0
      then bindE (newView (buffer (bytes_r fb)) (bufferOffset fb ofs) (count * 4)) (\<lambda>a.
           Inr (elements 4 a))
      else readUint32s fb ofs 0 (nat count))"


section \<open>FlatGeobuf features: decoding\<close>

definition decodeProperties ::
  "FlatBufferReader \<Rightarrow> int \<Rightarrow> ColumnMeta list \<Rightarrow> error + Properties" where
  "decodeProperties fb propsVecOffset columns =
     bindE (vectorLen fb propsVecOffset) (\<lambda>propsLen.
     if propsLen = 0 then Inr []
     else
       let dataStart = vectorStart propsVecOffset in
       bindE (readBytes fb dataStart propsLen) (\<lambda>propsBytes.
       bindE (newView (buffer propsBytes) (int (byteOffset propsBytes))
                (int (byteLength propsBytes))) (\<lambda>view.
       propsLoop view propsBytes columns 0 [])))"

definition MAX_GEOMETRY_DEPTH :: nat where
  "MAX_GEOMETRY_DEPTH = 4"

text \<open>
  A decoded geometry: the coordinates (doubles, as their bits), the ring ends and the part
  starts; \<open>None\<close> is \<open>null\<close>.
\<close>

record DecodedGeometry =
  type_g :: GeomType
  xy_g :: "int list"
  ends_g :: "int list option"
  parts_g :: "int list option"

text \<open>
  The accumulators of the parts loop of \<open>decodeGeometry\<close>. \<open>coordPairCount\<close> and the entries
  of \<open>allEnds\<close> are numbers that need not be whole, since \<open>xy.length / 2\<close> is a plain division;
  \<open>new Uint32Array(allEnds)\<close> truncates them.
\<close>

record PartsAcc =
  allXy :: "int list list"
  allEnds :: "rat list"
  partStarts :: "int list"
  coordPairCount :: rat

definition toUint32Elem :: "rat \<Rightarrow> int" where
  "toUint32Elem q = toUint32 (if 0 \<le> q then \<lfloor>q\<rfloor> else \<lceil>q\<rceil>)"

definition addPart :: "PartsAcc \<Rightarrow> DecodedGeometry \<Rightarrow> PartsAcc" where
  "addPart acc partGeom =
     (let partPairs = rat_of_nat (length (xy_g partGeom)) / 2 in
      \<lparr>allXy = allXy acc @ [xy_g partGeom],
       allEnds = allEnds acc @
         (case ends_g partGeom of
            Some es \<Rightarrow> map (\<lambda>e. rat_of_int e + coordPairCount acc) es
          | None \<Rightarrow> [coordPairCount acc + partPairs]),
       partStarts = partStarts acc @ [int (length (allEnds acc))],
       coordPairCount = coordPairCount acc + partPairs\<rparr>)"

definition assembleParts :: "GeomType \<Rightarrow> PartsAcc \<Rightarrow> DecodedGeometry option" where
  "assembleParts ty acc =
     (if length (allXy acc) = 0 then None
      else Some
        \<lparr>type_g = ty,
         xy_g = concat (allXy acc),
         ends_g = (if length (allEnds acc) > 0 then Some (map toUint32Elem (allEnds acc)) else None),
         parts_g = (if ty = GT_MultiPolygon \<and> length (partStarts acc) > 1
                    then Some (map toUint32 (partStarts acc)) else None)\<rparr>)"

text \<open>
  The geometry of a table with an \<open>xy\<close> vector: \<open>Inr None\<close> when the table has none (or an
  empty one), so that the caller falls back to the parts.
\<close>

definition decodeFlat ::
  "FlatBufferReader \<Rightarrow> int \<Rightarrow> GeomType \<Rightarrow> error + DecodedGeometry option" where
  "decodeFlat fb tablePos ty =
     bindE (fieldOffset fb tablePos 1) (\<lambda>xyFieldOff.
     if xyFieldOff = 0 then Inr None
     else
       bindE (indirect fb xyFieldOff) (\<lambda>xyVecOffset.
       bindE (vectorLen fb xyVecOffset) (\<lambda>xyLen.
       if \<not> xyLen > 0 then Inr None
       else
         let xyDataStart = vectorStart xyVecOffset in
         bindE (readFloat64Array fb xyDataStart xyLen) (\<lambda>xy.
         bindE (fieldOffset fb tablePos 0) (\<lambda>endsFieldOff.
         bindE
           (if endsFieldOff = 0 then Inr None
            else
              bindE (indirect fb endsFieldOff) (\<lambda>endsVecOffset.
              bindE (vectorLen fb endsVecOffset) (\<lambda>endsLen.
              if \<not> endsLen > 0 then Inr None
              else
                let endsDataStart = vectorStart endsVecOffset in
                bindE (readUint32Array fb endsDataStart endsLen) (\<lambda>es. Inr (Some es)))))
           (\<lambda>ends.
         Inr (Some \<lparr>type_g = ty, xy_g = xy, ends_g = ends, parts_g = None\<rparr>)))))))"

text \<open>
  \<open>decodeGeometry\<close>; the \<open>for\<close> loop over the parts is the fold over \<open>[0..<partsLen]\<close>, an
  exception ending it.
\<close>

function decodeGeometry ::
  "FlatBufferReader \<Rightarrow> int \<Rightarrow> GeomType \<Rightarrow> nat \<Rightarrow> error + DecodedGeometry option" where
  "decodeGeometry fb tablePos headerGeomType depth =
    (if depth > MAX_GEOMETRY_DEPTH then Inr None
     else
       case fieldOffset fb tablePos 6 of Inl e \<Rightarrow> Inl e | Inr typeFieldOff \<Rightarrow>
       (case (if typeFieldOff \<noteq> 0 then readUint8 fb typeFieldOff else Inr (int headerGeomType)) of
          Inl e \<Rightarrow> Inl e
        | Inr ty \<Rightarrow>
       (case decodeFlat fb tablePos (nat ty) of
          Inl e \<Rightarrow> Inl e
        | Inr (Some g) \<Rightarrow> Inr (Some g)
        | Inr None \<Rightarrow>
       (case fieldOffset fb tablePos 7 of Inl e \<Rightarrow> Inl e | Inr partsFieldOff \<Rightarrow>
        if partsFieldOff = 0 then Inr None
        else
       (case indirect fb partsFieldOff of Inl e \<Rightarrow> Inl e | Inr partsVecOffset \<Rightarrow>
       (case vectorLen fb partsVecOffset of Inl e \<Rightarrow> Inl e | Inr partsLen \<Rightarrow>
        if partsLen = 0 then Inr None
        else
          let partsDataStart = vectorStart partsVecOffset in
          (case foldl
                  (\<lambda>st i.
                     case st of Inl e \<Rightarrow> Inl e | Inr acc \<Rightarrow>
                     (case indirect fb (partsDataStart + int i * 4) of
                        Inl e \<Rightarrow> Inl e
                      | Inr partOffset \<Rightarrow>
                     (case decodeGeometry fb partOffset headerGeomType (depth + 1) of
                        Inl e \<Rightarrow> Inl e
                      | Inr None \<Rightarrow> Inr acc
                      | Inr (Some partGeom) \<Rightarrow>
                          if length (xy_g partGeom) = 0 then Inr acc
                          else Inr (addPart acc partGeom))))
                  (Inr \<lparr>allXy = [], allEnds = [], partStarts = [], coordPairCount = 0\<rparr>)
                  [0..<nat partsLen] of
             Inl e \<Rightarrow> Inl e
           | Inr acc \<Rightarrow> Inr (assembleParts (nat ty) acc))))))))"
  by pat_completeness auto
termination
  by (relation "measure (\<lambda>(fb, tablePos, headerGeomType, depth). Suc MAX_GEOMETRY_DEPTH - depth)")
     auto

declare decodeGeometry.simps [simp del]

text \<open>A raw feature; \<open>id_f = None\<close> is the \<open>id: null\<close> of the source.\<close>

record RawFeature =
  type_f :: GeomType
  xy_f :: "int list"
  ends_f :: "int list option"
  parts_f :: "int list option"
  properties :: Properties
  id_f :: "int option"

definition decodeSingleFeature ::
  "Uint8Array \<Rightarrow> GeomType \<Rightarrow> ColumnMeta list \<Rightarrow> error + RawFeature option" where
  "decodeSingleFeature b geometryType columns =
     bindE (newFlatBufferReader b) (\<lambda>fb.
     bindE (rootTableOffset fb) (\<lambda>rootOffset.
     bindE (fieldOffset fb rootOffset 0) (\<lambda>geomFieldOff.
     if geomFieldOff = 0 then Inr None
     else
       bindE (indirect fb geomFieldOff) (\<lambda>geomTableOffset.
       bindE (decodeGeometry fb geomTableOffset geometryType 0) (\<lambda>geom.
       case geom of
         None \<Rightarrow> Inr None
       | Some g \<Rightarrow>
           bindE (fieldOffset fb rootOffset 1) (\<lambda>propsFieldOff.
           bindE
             (if propsFieldOff \<noteq> 0
              then bindE (indirect fb propsFieldOff) (\<lambda>p. decodeProperties fb p columns)
              else Inr [])
             (\<lambda>props.
           Inr (Some \<lparr>type_f = type_g g, xy_f = xy_g g, ends_f = ends_g g, parts_f = parts_g g,
                      properties = props, id_f = None\<rparr>))))))))"

text \<open>
  \<open>decodeFeatures\<close>: the \<open>while\<close> loop, with \<open>maxFeatures = None\<close> for the default \<open>Infinity\<close>.
\<close>

definition belowMax :: "nat \<Rightarrow> nat option \<Rightarrow> bool" where
  "belowMax n maxFeatures = (case maxFeatures of None \<Rightarrow> True | Some m \<Rightarrow> n < m)"

function featuresLoop ::
  "Uint8Array \<Rightarrow> GeomType \<Rightarrow> ColumnMeta list \<Rightarrow> nat option \<Rightarrow> int \<Rightarrow> RawFeature list
     \<Rightarrow> error + RawFeature list" where
  "featuresLoop b geometryType columns maxFeatures ofs features =
    (if ofs < int (byteLength b) \<and> belowMax (length features) maxFeatures then
       if ofs + 4 > int (byteLength b) then Inr features
       else
         case newView (buffer b) (int (byteOffset b) + ofs) 4 of Inl e \<Rightarrow> Inl e | Inr v \<Rightarrow>
         (case getUint32 v 0 of Inl e \<Rightarrow> Inl e | Inr featureSize \<Rightarrow>
          if featureSize = 0 then Inr features
          else if ofs + 4 + featureSize > int (byteLength b) then Inr features
          else
            let featureBytes = subarray b (nat (ofs + 4)) (nat (ofs + 4 + featureSize)) in
            (case decodeSingleFeature featureBytes geometryType columns of
               Inl e \<Rightarrow> Inl e
             | Inr feature \<Rightarrow>
                 featuresLoop b geometryType columns maxFeatures (ofs + 4 + featureSize)
                   (case feature of Some f \<Rightarrow> features @ [f] | None \<Rightarrow> features)))
     else Inr features)"
  by pat_completeness auto
termination
proof (relation "measure (\<lambda>(b, geometryType, columns, maxFeatures, ofs, features).
                   nat (int (byteLength b) - ofs))", goal_cases)
  case 1
  show ?case by simp
next
  case (2 b geometryType columns maxFeatures ofs features v featureSize featureBytes feature)
  then have "0 \<le> featureSize"
    unfolding getUint32_def using getUintLE_nonneg by metis
  with 2 show ?case by simp
qed

declare featuresLoop.simps [simp del]

subsection \<open>Malformed property streams\<close>

text \<open>
  The value encodings of the specification's table: the width of a fixed-width column type,
  the length-prefixed types, and when the value at \<open>ofs\<close> is cut off by the end of the
  properties bytes.
\<close>

definition fixedWidth :: "ColumnType \<Rightarrow> nat option" where
  "fixedWidth ty =
     (if ty = CT_Bool \<or> ty = CT_Byte \<or> ty = CT_UByte then Some 1
      else if ty = CT_Short \<or> ty = CT_UShort then Some 2
      else if ty = CT_Int \<or> ty = CT_UInt \<or> ty = CT_Float then Some 4
      else if ty = CT_Long \<or> ty = CT_ULong \<or> ty = CT_Double then Some 8
      else None)"

definition lengthPrefixed :: "ColumnType \<Rightarrow> bool" where
  "lengthPrefixed ty = (ty = CT_String \<or> ty = CT_Json \<or> ty = CT_DateTime \<or> ty = CT_Binary)"

definition undefinedType :: "ColumnType \<Rightarrow> bool" where
  "undefinedType ty = (fixedWidth ty = None \<and> \<not> lengthPrefixed ty)"

definition truncatedFixed :: "Uint8Array \<Rightarrow> int \<Rightarrow> ColumnType \<Rightarrow> bool" where
  "truncatedFixed pb ofs ty =
     (case fixedWidth ty of Some w \<Rightarrow> ofs + int w > int (byteLength pb) | None \<Rightarrow> False)"

definition truncatedPrefixed :: "Uint8Array \<Rightarrow> int \<Rightarrow> ColumnType \<Rightarrow> bool" where
  "truncatedPrefixed pb ofs ty =
     (lengthPrefixed ty \<and>
      (ofs + 4 > int (byteLength pb) \<or>
       (case getUint32 pb ofs of
          Inr len \<Rightarrow> ofs + 4 + len > int (byteLength pb)
        | Inl e \<Rightarrow> False)))"

text \<open>
  Four columns, the last of a type outside the enum, and four property streams: a string cut
  off after its column index, followed by a pair for the second column; an integer with two
  of its four bytes; a column index that the schema does not have, followed by a pair for
  the second column; and an entry of the last column, followed by a pair for the second.
\<close>

definition twoColumns :: "ColumnMeta list" where
  "twoColumns =
     [\<lparr>name_c = ''a'', type_c = CT_String, nullable = True\<rparr>,
      \<lparr>name_c = ''b'', type_c = CT_Bool, nullable = True\<rparr>,
      \<lparr>name_c = ''c'', type_c = CT_Int, nullable = True\<rparr>,
      \<lparr>name_c = ''d'', type_c = 99, nullable = True\<rparr>]"

definition bytesOf :: "byte list \<Rightarrow> Uint8Array" where
  "bytesOf bs = \<lparr>buffer = bs, byteOffset = 0, byteLength = length bs\<rparr>"

definition cutString :: Uint8Array where
  "cutString = bytesOf [0, 0, 1, 0, 1]"

definition cutInt :: Uint8Array where
  "cutInt = bytesOf [2, 0, 7, 0]"

definition unknownColumn :: Uint8Array where
  "unknownColumn = bytesOf [9, 0, 1, 0, 1]"

definition unknownType :: Uint8Array where
  "unknownType = bytesOf [3, 0, 1, 0, 1]"

text \<open>
  The first two of them as the properties vector of a FlatBuffer: the length of the vector,
  then the bytes.
\<close>

definition cutStringVector :: FlatBufferReader where
  "cutStringVector =
     (let b = bytesOf [5, 0, 0, 0, 0, 0, 1, 0, 1] in \<lparr>view_r = b, bytes_r = b\<rparr>)"

definition cutIntVector :: FlatBufferReader where
  "cutIntVector =
     (let b = bytesOf [4, 0, 0, 0, 2, 0, 7, 0] in \<lparr>view_r = b, bytes_r = b\<rparr>)"

section \<open>Spatial index: the query\<close>

text \<open>
  \<open>queryIndex\<close> of \<open>fgb/index.ts\<close>. Node indices, offsets and counts are JavaScript numbers
  holding whole values; the model computes with them exactly, as JavaScript does below
  \<open>2^53\<close>.

  A double read by \<open>getFloat64\<close> is decoded from its IEEE-754 bits: sign, 11 bits of exponent,
  52 bits of fraction. \<open>js_lt\<close> is the comparison \<open><\<close> of two numbers, false when one of them
  is \<open>NaN\<close>.
\<close>

datatype float64 = NaN | NegInf | Num rat | PosInf

definition decodeFloat64 :: "int \<Rightarrow> float64" where
  "decodeFloat64 bits =
     (let negative = (bits div 2 ^ 63) mod 2 = 1;
          e = (bits div 2 ^ 52) mod 2 ^ 11;
          m = bits mod 2 ^ 52;
          sgn = (if negative then - 1 else 1 :: rat)
      in if e = 2047 then (if m \<noteq> 0 then NaN else if negative then NegInf else PosInf)
         else if e = 0 then Num (sgn * rat_of_int m / 2 ^ 1074)
         else if e < 1075 then Num (sgn * rat_of_int (2 ^ 52 + m) / 2 ^ nat (1075 - e))
         else Num (sgn * rat_of_int (2 ^ 52 + m) * 2 ^ nat (e - 1075)))"

fun js_lt :: "float64 \<Rightarrow> float64 \<Rightarrow> bool" where
  "js_lt NaN y = False"
| "js_lt x NaN = False"
| "js_lt (Num a) (Num b) = (a < b)"
| "js_lt NegInf y = (y \<noteq> NegInf)"
| "js_lt x PosInf = (x \<noteq> PosInf)"
| "js_lt x NegInf = False"
| "js_lt PosInf y = False"

definition js_gt :: "float64 \<Rightarrow> float64 \<Rightarrow> bool" where
  "js_gt x y = js_lt y x"

record BBox =
  minX :: float64
  minY :: float64
  maxX :: float64
  maxY :: float64

definition readUint64AsNumber :: "DataView \<Rightarrow> int \<Rightarrow> error + int" where
  "readUint64AsNumber view ofs =
     bindE (getUint32 view ofs) (\<lambda>lo.
     bindE (getUint32 view (ofs + 4)) (\<lambda>hi.
     Inr (hi * 0x100000000 + lo)))"

lemma bindE_cong [fundef_cong]:
  "m = m' \<Longrightarrow> (\<And>x. m' = Inr x \<Longrightarrow> f x = f' x) \<Longrightarrow> bindE m f = bindE m' f'"
  by (cases m') (simp_all add: bindE_def)

text \<open>
  The stack holds pairs \<open>(nodeIdx, level)\<close>, the top first. \<open>pushNodes a b level\<close> is the loop
  \<open>for (i = a; i < b; i++) stack.push(i, level)\<close>: the node pushed last is on top.
\<close>

definition pushNodes :: "int \<Rightarrow> int \<Rightarrow> nat \<Rightarrow> (int \<times> nat) list \<Rightarrow> (int \<times> nat) list" where
  "pushNodes a b level stack = map (\<lambda>i. (i, level)) (rev [a..b - 1]) @ stack"

text \<open>
  The \<open>while\<close> loop of the traversal, returning \<open>matchingLeafIndices\<close>. \<open>levelBounds[level -
  1]\<close> outside the array is \<open>undefined\<close>, and reading its entry 1 a \<open>TypeError\<close>.
\<close>

definition stackWeight :: "nat \<Rightarrow> (int \<times> nat) list \<Rightarrow> nat" where
  "stackWeight nodeSize stack = sum_list (map (\<lambda>(i, level). (nodeSize + 1) ^ level) stack)"

lemma stackWeight_pushNodes:
  "stackWeight nodeSize (pushNodes a b level stack) =
     nat (b - a) * (nodeSize + 1) ^ level + stackWeight nodeSize stack"
proof -
  have "sum_list (map (\<lambda>(i, l). (nodeSize + 1) ^ l) (map (\<lambda>i. (i, level)) xs)) =
      length xs * (nodeSize + 1) ^ level" for xs :: "int list"
    by (induction xs) simp_all
  then show ?thesis
    by (simp add: stackWeight_def pushNodes_def)
qed

function traverse ::
  "DataView \<Rightarrow> Uint8Array \<Rightarrow> nat \<Rightarrow> BBox \<Rightarrow> (nat \<times> nat) list \<Rightarrow> (int \<times> nat) list \<Rightarrow> int list
     \<Rightarrow> error + int list" where
  "traverse view indexBytes nodeSize bbox levelBounds [] matchingLeafIndices =
     Inr matchingLeafIndices"
| "traverse view indexBytes nodeSize bbox levelBounds ((nodeIdx, level) # stack)
     matchingLeafIndices =
    (let nodeByteOff = nodeIdx * int NODE_ITEM_SIZE in
     if nodeByteOff + int NODE_ITEM_SIZE > int (byteLength indexBytes) then Inr matchingLeafIndices
     else
       bindE (getFloat64 view nodeByteOff) (\<lambda>nodeMinX.
       bindE (getFloat64 view (nodeByteOff + 8)) (\<lambda>nodeMinY.
       bindE (getFloat64 view (nodeByteOff + 16)) (\<lambda>nodeMaxX.
       bindE (getFloat64 view (nodeByteOff + 24)) (\<lambda>nodeMaxY.
       if js_lt (decodeFloat64 nodeMaxX) (minX bbox) \<or> js_gt (decodeFloat64 nodeMinX) (maxX bbox) \<or>
          js_lt (decodeFloat64 nodeMaxY) (minY bbox) \<or> js_gt (decodeFloat64 nodeMinY) (maxY bbox)
       then traverse view indexBytes nodeSize bbox levelBounds stack matchingLeafIndices
       else if level = 0
       then traverse view indexBytes nodeSize bbox levelBounds stack
              (matchingLeafIndices @ [nodeIdx])
       else
         bindE (readUint64AsNumber view (nodeByteOff + 32)) (\<lambda>firstChild.
         if \<not> level - 1 < length levelBounds then Inl TypeError
         else
           let childLevelEnd = int (snd (levelBounds ! (level - 1)));
               childEnd = min (firstChild + int nodeSize) childLevelEnd
           in traverse view indexBytes nodeSize bbox levelBounds
                (pushNodes firstChild childEnd (level - 1) stack) matchingLeafIndices))))))"
  by pat_completeness auto
termination
proof (relation "measure (\<lambda>(view, indexBytes, nodeSize, bbox, levelBounds, stack, matching).
                   stackWeight nodeSize stack)", goal_cases)
  case 1
  show ?case by simp
next
  case 2
  then show ?case by (simp add: stackWeight_def)
next
  case 3
  then show ?case by (simp add: stackWeight_def)
next
  case (4 view indexBytes nodeSize bbox levelBounds nodeIdx level stack matching nodeByteOff
      nodeMinX nodeMinY nodeMaxX nodeMaxY firstChild childLevelEnd childEnd)
  from 4 obtain l where l: "level = Suc l" by (cases level) auto
  have "childEnd - firstChild \<le> int nodeSize" using 4 by simp
  then have "nat (childEnd - firstChild) \<le> nodeSize" by simp
  then have "nat (childEnd - firstChild) * (nodeSize + 1) ^ l \<le> nodeSize * (nodeSize + 1) ^ l"
    by (rule mult_right_mono) simp
  also have "\<dots> < (nodeSize + 1) ^ Suc l" by simp
  finally show ?case
    using l by (simp add: stackWeight_pushNodes) (simp add: stackWeight_def)
qed

declare traverse.simps [simp del]

text \<open>
  The loop that turns the sorted leaf indices into byte ranges: the length of a feature is
  the difference to the offset stored in the next leaf, or 1 MiB for the last leaf.
\<close>

fun rangesLoop :: "DataView \<Rightarrow> int \<Rightarrow> int \<Rightarrow> int list \<Rightarrow> error + ByteRange list" where
  "rangesLoop view featuresOffset leafEnd [] = Inr []"
| "rangesLoop view featuresOffset leafEnd (nodeIdx # rest) =
    (let nodeByteOff = nodeIdx * int NODE_ITEM_SIZE in
     bindE (readUint64AsNumber view (nodeByteOff + 32)) (\<lambda>featureByteOffset.
     bindE
       (if nodeIdx + 1 < leafEnd
        then bindE (readUint64AsNumber view ((nodeIdx + 1) * int NODE_ITEM_SIZE + 32))
               (\<lambda>nextByteOffset. Inr (nextByteOffset - featureByteOffset))
        else Inr (1024 * 1024))
       (\<lambda>featureLength.
     bindE (rangesLoop view featuresOffset leafEnd rest) (\<lambda>ranges.
     Inr (\<lparr>offset = featuresOffset + featureByteOffset, length_r = featureLength\<rparr> # ranges)))))"

text \<open>
  \<open>queryIndex\<close>. The result is \<open>None\<close> when \<open>computeLevelBounds\<close> does not return, \<open>Some (Inl
  e)\<close> when an exception \<open>e\<close> is raised, \<open>Some (Inr ranges)\<close> when \<open>ranges\<close> is returned.
\<close>

definition queryIndex ::
  "Uint8Array \<Rightarrow> nat \<Rightarrow> nat \<Rightarrow> int \<Rightarrow> BBox \<Rightarrow> (error + ByteRange list) option" where
  "queryIndex indexBytes featuresCount nodeSize featuresOffset bbox =
    (if featuresCount = 0 \<or> nodeSize = 0 then Some (Inr [])
     else
       case computeLevelBounds featuresCount nodeSize of
         None \<Rightarrow> None
       | Some levelBounds \<Rightarrow> Some (
           bindE (newView (buffer indexBytes) (int (byteOffset indexBytes))
                    (int (byteLength indexBytes))) (\<lambda>view.
           let numLevels = length levelBounds;
               leafEnd = int (snd (levelBounds ! 0));
               rootLevel = numLevels - 1;
               (rootStart, rootEnd) = levelBounds ! rootLevel;
               stack = pushNodes (int rootStart) (int rootEnd) rootLevel []
           in
           bindE (traverse view indexBytes nodeSize bbox levelBounds stack []) (\<lambda>matchingLeafIndices.
           if length matchingLeafIndices = 0 then Inr []
           else
             bindE (rangesLoop view featuresOffset leafEnd (sort matchingLeafIndices)) (\<lambda>ranges.
             Inr (mergeRanges ranges GAP))))))"

text \<open>
  Two indexes, and a query box. The first index is empty although the file has one feature.
  The second is complete, for two features and node size 16: a root and two leaves, every
  box the point \<open>(0, 0)\<close>, the root pointing to node 1, the first leaf storing the offset
  100 and the second the offset 50.
\<close>

definition le64 :: "nat \<Rightarrow> byte list" where
  "le64 n = map (\<lambda>i. of_nat (n div 256 ^ i)) [0..<8]"

definition indexNode :: "nat \<Rightarrow> byte list" where
  "indexNode ofs = replicate 32 0 @ le64 ofs"


definition unorderedIndex :: Uint8Array where
  "unorderedIndex = bytesOf (indexNode 1 @ indexNode 100 @ indexNode 50)"

definition originBox :: BBox where
  "originBox = \<lparr>minX = Num 0, minY = Num 0, maxX = Num 0, maxY = Num 0\<rparr>"


text \<open>
  An outcome that is a value, or the \<open>RangeError\<close> of a read outside the buffer; and a typed
  array that lies inside its buffer, as every typed array of JavaScript does.
\<close>

definition onlyRangeError :: "error + 'a \<Rightarrow> bool" where
  "onlyRangeError r = (case r of Inl e \<Rightarrow> e = RangeError | Inr x \<Rightarrow> True)"


record FgbHeader =
  geometryType :: GeomType
  columns :: "ColumnMeta list"
  featuresCount :: nat
  indexNodeSize :: nat
  indexOffset :: int
  indexSize :: int
  featuresOffset :: int
  headerSize :: int

definition decodeFeatures ::
  "Uint8Array \<Rightarrow> FgbHeader \<Rightarrow> nat option \<Rightarrow> error + RawFeature list" where
  "decodeFeatures b header maxFeatures =
     featuresLoop b (geometryType header) (columns header) maxFeatures 0 []"


section \<open>The pipeline of one source\<close>

text \<open>
  \<open>processSource\<close>, \<open>readHeader\<close> and \<open>emptyLayer\<close> of \<open>pipeline.ts\<close>, with the types of
  \<open>types.ts\<close> and \<open>source.ts\<close>. Zoom, tile coordinates and options are JavaScript numbers
  (\<open>float64\<close>). Fields that several records share carry a suffix: \<open>name_s\<close> of a source,
  \<open>name_l\<close>, \<open>extent_l\<close> and \<open>values_l\<close> of a layer, \<open>extent_o\<close> and \<open>buffer_o\<close> of the options, \<open>id_m\<close> and
  \<open>type_m\<close> of a feature.
\<close>

datatype MvtValue =
  StringValue "byte list" | DoubleValue float64 | IntValue int | UintValue int | BoolValue bool

record MvtFeature =
  id_m :: "int option"
  type_m :: int
  geometry :: "int list"
  tags :: "int list"

record MvtLayer =
  name_l :: string
  extent_l :: float64
  features :: "MvtFeature list"
  keys :: "string list"
  values_l :: "MvtValue list"

record TileOptions =
  extent_o :: float64
  buffer_o :: float64
  tolerance :: float64
  maxZoom :: float64
  minZoom :: float64

record Source =
  name_s :: string
  path :: string

record FgbCache =
  header :: FgbHeader
  indexBytes :: Uint8Array

text \<open>
  A connector: its two methods, a rejected promise being \<open>Inl\<close>. Every call of a method is
  recorded, in order, in a list that the pipeline threads through: \<open>Read path offset length\<close>
  for \<open>connector.read\<close> and \<open>ReadRanges path ranges\<close> for \<open>connector.readRanges\<close>.
\<close>

record Connector =
  read :: "string \<Rightarrow> int \<Rightarrow> int \<Rightarrow> error + Uint8Array"
  readRanges :: "string \<Rightarrow> ByteRange list \<Rightarrow> error + Uint8Array list"

datatype io_call = Read string int int | ReadRanges string "ByteRange list"

text \<open>
  The outcome of an \<open>async\<close> function: the promise resolves, rejects, or never settles (when
  \<open>computeLevelBounds\<close> does not return).
\<close>

datatype 'a outcome = Returns 'a | Throws error | Diverges

definition HEADER_MAGIC_SIZE :: int where
  "HEADER_MAGIC_SIZE = 8"

definition INITIAL_HEADER_READ_SIZE :: int where
  "INITIAL_HEADER_READ_SIZE = HEADER_MAGIC_SIZE + 4"

definition headerByteSize :: "Uint8Array \<Rightarrow> error + int" where
  "headerByteSize b =
     (if int (byteLength b) < HEADER_MAGIC_SIZE + 4
      then Inl (Error ''Not enough bytes to read FGB header size'')
      else
        bindE (newView (buffer b) (int (byteOffset b) + HEADER_MAGIC_SIZE) 4) (\<lambda>v.
        bindE (getUint32 v 0) (\<lambda>n. Inr (HEADER_MAGIC_SIZE + 4 + n))))"

text \<open>
  \<open>readHeader\<close>. \<open>parseHeader\<close>, the FlatBuffer parser of the header table, is a parameter: a
  function from the header bytes to a header or an exception.
\<close>

definition readHeader ::
  "(Uint8Array \<Rightarrow> error + FgbHeader) \<Rightarrow> Connector \<Rightarrow> string \<Rightarrow> io_call list
     \<Rightarrow> (error + FgbHeader \<times> Uint8Array) \<times> io_call list" where
  "readHeader parseHeader connector p calls =
    (let calls1 = calls @ [Read p 0 INITIAL_HEADER_READ_SIZE] in
     case read connector p 0 INITIAL_HEADER_READ_SIZE of
       Inl e \<Rightarrow> (Inl e, calls1)
     | Inr initialBytes \<Rightarrow>
     (case headerByteSize initialBytes of
       Inl e \<Rightarrow> (Inl e, calls1)
     | Inr hdrSize \<Rightarrow>
       let (headerBytes, calls2) =
             (if hdrSize \<le> int (byteLength initialBytes)
              then (Inr (subarray initialBytes 0 (nat hdrSize)), calls1)
              else (read connector p 0 hdrSize, calls1 @ [Read p 0 hdrSize]))
       in
     (case headerBytes of
       Inl e \<Rightarrow> (Inl e, calls2)
     | Inr hb \<Rightarrow>
     (case parseHeader hb of
       Inl e \<Rightarrow> (Inl e, calls2)
     | Inr hdr \<Rightarrow>
       if indexSize hdr > 0
       then
         let calls3 = calls2 @ [Read p (indexOffset hdr) (indexSize hdr)] in
         (case read connector p (indexOffset hdr) (indexSize hdr) of
            Inl e \<Rightarrow> (Inl e, calls3)
          | Inr ib \<Rightarrow> (Inr (hdr, ib), calls3))
       else (Inr (hdr, bytesOf []), calls2)))))"

definition emptyLayer :: "string \<Rightarrow> float64 \<Rightarrow> MvtLayer" where
  "emptyLayer name extent =
     \<lparr>name_l = name, extent_l = extent, features = [], keys = [], values_l = []\<rparr>"

text \<open>The loop of \<open>processSource\<close> that decodes the chunks and collects their features.\<close>

fun decodeChunks :: "Uint8Array list \<Rightarrow> FgbHeader \<Rightarrow> error + RawFeature list" where
  "decodeChunks [] hdr = Inr []"
| "decodeChunks (chunk # chunks) hdr =
     bindE (decodeFeatures chunk hdr None) (\<lambda>fs.
     bindE (decodeChunks chunks hdr) (\<lambda>rest. Inr (fs @ rest)))"

text \<open>
  \<open>processSource\<close>, from the connector calls made so far (\<open>calls\<close>) to the outcome and the
  calls made after it. \<open>buildMvtLayer\<close>, the geometry stage (project, clip, simplify, transform,
  encode), is a parameter like \<open>parseHeader\<close>.
\<close>

type_synonym build_layer =
  "RawFeature list \<Rightarrow> string \<Rightarrow> float64 \<Rightarrow> float64 \<Rightarrow> float64 \<Rightarrow> BBox \<Rightarrow> float64 \<Rightarrow> float64
     \<Rightarrow> error + MvtLayer"

definition processSource ::
  "(Uint8Array \<Rightarrow> error + FgbHeader) \<Rightarrow> build_layer \<Rightarrow> Connector \<Rightarrow> Source
     \<Rightarrow> float64 \<Rightarrow> float64 \<Rightarrow> float64 \<Rightarrow> BBox \<Rightarrow> BBox \<Rightarrow> TileOptions \<Rightarrow> FgbCache option
     \<Rightarrow> io_call list \<Rightarrow> MvtLayer outcome \<times> io_call list" where
  "processSource parseHeader buildMvtLayer connector source z x y wgs84BBox clipBounds tileOpts
     cache calls =
    (if js_lt z (minZoom tileOpts) \<or> js_gt z (maxZoom tileOpts)
     then (Returns (emptyLayer (name_s source) (extent_o tileOpts)), calls)
     else
       case (case cache of
               Some c \<Rightarrow> (Inr (header c, indexBytes c), calls)
             | None \<Rightarrow> readHeader parseHeader connector (path source) calls) of
         (Inl e, calls1) \<Rightarrow> (Throws e, calls1)
       | (Inr (hdr, ib), calls1) \<Rightarrow>
           if indexNodeSize hdr = 0 \<or> featuresCount hdr = 0
           then (Returns (emptyLayer (name_s source) (extent_o tileOpts)), calls1)
           else
             (case queryIndex ib (featuresCount hdr) (indexNodeSize hdr) (featuresOffset hdr)
                     wgs84BBox of
                None \<Rightarrow> (Diverges, calls1)
              | Some (Inl e) \<Rightarrow> (Throws e, calls1)
              | Some (Inr ranges) \<Rightarrow>
                  if length ranges = 0
                  then (Returns (emptyLayer (name_s source) (extent_o tileOpts)), calls1)
                  else
                    let calls2 = calls1 @ [ReadRanges (path source) ranges] in
                    (case readRanges connector (path source) ranges of
                       Inl e \<Rightarrow> (Throws e, calls2)
                     | Inr featureChunks \<Rightarrow>
                     (case decodeChunks featureChunks hdr of
                       Inl e \<Rightarrow> (Throws e, calls2)
                     | Inr allFeatures \<Rightarrow>
                         if length allFeatures = 0
                         then (Returns (emptyLayer (name_s source) (extent_o tileOpts)), calls2)
                         else
                           (case buildMvtLayer allFeatures (name_s source) z x y clipBounds
                                   (extent_o tileOpts) (tolerance tileOpts) of
                              Inl e \<Rightarrow> (Throws e, calls2)
                            | Inr layer \<Rightarrow> (Returns layer, calls2))))))"

text \<open>
  Sample inputs: a connector whose every read fails, a source, the default options, and
  stages that fail as well.
\<close>

definition failingConnector :: Connector where
  "failingConnector =
     \<lparr>read = (\<lambda>p ofs len. Inl (Error ''read failed'')),
      readRanges = (\<lambda>p ranges. Inl (Error ''read failed''))\<rparr>"

definition roads :: Source where
  "roads = \<lparr>name_s = ''roads'', path = ''roads.fgb''\<rparr>"

definition DEFAULT_TILE_OPTIONS :: TileOptions where
  "DEFAULT_TILE_OPTIONS =
     \<lparr>extent_o = Num 4096, buffer_o = Num 64, tolerance = Num 3, maxZoom = Num 24, minZoom = Num 0\<rparr>"

definition noHeader :: "Uint8Array \<Rightarrow> error + FgbHeader" where
  "noHeader b = Inl (Error ''Invalid FlatGeobuf magic bytes'')"

definition noLayer :: build_layer where
  "noLayer fs name z x y clipBounds extent tol = Inl (Error ''not built'')"

section \<open>PBF writer: fields and messages\<close>

text \<open>
  The field-level methods of \<open>PbfWriter\<close> and \<open>writeFeature\<close> of \<open>pbf/encode.ts\<close>.
  \<open>beginMessage\<close> reserves five bytes for the length and pushes their position;
  \<open>endMessage\<close> pops it, moves the message left over the bytes that the length does not
  need (\<open>copyWithin\<close>) and stores the length at the position. The reserved bytes hold whatever
  the buffer held (zeros in a fresh buffer, here); with a length below \<open>2^32\<close> none of them
  is left in the output. On an empty stack \<open>pop\<close> gives \<open>undefined\<close>, the length is \<open>NaN\<close>, and
  \<open>endMessage\<close> changes nothing.
\<close>

definition WIRE_VARINT :: int where "WIRE_VARINT = 0"
definition WIRE_LEN :: int where "WIRE_LEN = 2"

definition writeTag :: "PbfWriter \<Rightarrow> int \<Rightarrow> int \<Rightarrow> PbfWriter" where
  "writeTag w fieldNum wireType = writeVarint w (js_or (js_shl fieldNum 3) wireType)"

definition writeVarintField :: "PbfWriter \<Rightarrow> int \<Rightarrow> int \<Rightarrow> PbfWriter" where
  "writeVarintField w fieldNum val = writeVarint (writeTag w fieldNum WIRE_VARINT) val"

definition writePackedVarint :: "PbfWriter \<Rightarrow> int \<Rightarrow> int list \<Rightarrow> PbfWriter" where
  "writePackedVarint w fieldNum vals =
     (if length vals = 0 then w
      else
        let w1 = writeTag w fieldNum WIRE_LEN;
            byteLen = foldl (\<lambda>n v. n + int (varintSize v)) 0 vals;
            w2 = writeVarint w1 byteLen
        in foldl writeVarint w2 vals)"

definition beginMessage :: "PbfWriter \<Rightarrow> int \<Rightarrow> PbfWriter" where
  "beginMessage w fieldNum =
     (let w1 = writeTag w fieldNum WIRE_LEN
      in \<lparr>buf = buf w1 @ replicate 5 0, lengthStack = lengthStack w1 @ [pos w1]\<rparr>)"

text \<open>\<open>overwrite xs p ys\<close> stores \<open>ys\<close> in \<open>xs\<close> from position \<open>p\<close>.\<close>

definition overwrite :: "'a list \<Rightarrow> nat \<Rightarrow> 'a list \<Rightarrow> 'a list" where
  "overwrite xs p ys = take p xs @ take (length xs - p) ys @ drop (p + length ys) xs"

definition endMessage :: "PbfWriter \<Rightarrow> PbfWriter" where
  "endMessage w =
     (if lengthStack w = [] then w
      else
        let placeholderPos = last (lengthStack w);
            messageLen = int (pos w) - int placeholderPos - 5;
            lenSize = varintSize messageLen;
            shifted = (if lenSize < 5
                       then take (placeholderPos + lenSize) (buf w) @ drop (placeholderPos + 5) (buf w)
                       else buf w)
        in \<lparr>buf = overwrite shifted placeholderPos (varintLoop messageLen),
            lengthStack = butlast (lengthStack w)\<rparr>)"

definition writeFeature :: "PbfWriter \<Rightarrow> MvtFeature \<Rightarrow> PbfWriter" where
  "writeFeature w feature =
     (let w1 = beginMessage w 2;
          w2 = (case id_m feature of Some i \<Rightarrow> writeVarintField w1 1 i | None \<Rightarrow> w1);
          w3 = (if length (tags feature) > 0 then writePackedVarint w2 2 (tags feature) else w2);
          w4 = writeVarintField w3 3 (type_m feature);
          w5 = (if length (geometry feature) > 0
                then writePackedVarint w4 4 (geometry feature) else w4)
      in endMessage w5)"

text \<open>
  The feature that \<open>buildMvtLayer\<close> pushes for a raw feature, of the type, geometry and tags
  that it has computed: the id is the id of the raw feature.
\<close>

definition mvtFeature :: "RawFeature \<Rightarrow> int \<Rightarrow> int list \<Rightarrow> int list \<Rightarrow> MvtFeature" where
  "mvtFeature feature mvtType geom tgs =
     \<lparr>id_m = id_f feature, type_m = mvtType, geometry = geom, tags = tgs\<rparr>"

text \<open>
  Modelled from the spec: the repository has no reader of protocol buffers. A message is a
  sequence of fields, each a tag varint \<open>(field number << 3) | wire type\<close> followed by a
  varint (wire type 0) or by a length varint and that many bytes (wire type 2); \<open>readFields\<close>
  reads them all, or fails.
\<close>

datatype field = VarintField nat nat | LenField nat "byte list"

fun fieldNumber :: "field \<Rightarrow> nat" where
  "fieldNumber (VarintField n v) = n"
| "fieldNumber (LenField n bs) = n"

lemma readVarint_shorter: "readVarint bs = Some (v, rest) \<Longrightarrow> length rest < length bs"
proof (induction bs arbitrary: v rest)
  case Nil
  then show ?case by simp
next
  case (Cons b bs)
  then show ?case
    by (cases "b < 0x80"; cases "readVarint bs") (auto split: prod.splits)
qed

function readFields :: "byte list \<Rightarrow> field list option" where
  "readFields bs =
     (if bs = [] then Some []
      else
        case readVarint bs of
          None \<Rightarrow> None
        | Some (tag, rest) \<Rightarrow>
            if tag mod 8 = 0 then
              (case readVarint rest of
                 None \<Rightarrow> None
               | Some (v, rest') \<Rightarrow>
                   map_option (Cons (VarintField (tag div 8) v)) (readFields rest'))
            else if tag mod 8 = 2 then
              (case readVarint rest of
                 None \<Rightarrow> None
               | Some (n, rest') \<Rightarrow>
                   if n \<le> length rest'
                   then map_option (Cons (LenField (tag div 8) (take n rest')))
                          (readFields (drop n rest'))
                   else None)
            else None)"
  by pat_completeness auto
termination
proof (relation "measure length", goal_cases)
  case 1
  show ?case by simp
next
  case (2 bs x tag rest y v rest')
  then show ?case
    using readVarint_shorter [of bs tag rest] readVarint_shorter [of rest v rest'] by simp
next
  case (3 bs x tag rest y n rest')
  then show ?case
    using readVarint_shorter [of bs tag rest] readVarint_shorter [of rest n rest'] by simp
qed

declare readFields.simps [simp del]

text \<open>
  What \<open>writeFeature\<close> writes for a feature without id, in the terms of the wire format: the
  bytes of one varint, a packed field (nothing for an empty list), and the body of the
  feature message: the tags (field 2), the type (field 3) and the geometry (field 4).
\<close>

definition encodeVarint :: "int \<Rightarrow> byte list" where
  "encodeVarint v = (if v < 0 then writeBigVarint v else varintLoop v)"

definition packedPayload :: "int list \<Rightarrow> byte list" where
  "packedPayload vs = concat (map encodeVarint vs)"

definition packedField :: "byte \<Rightarrow> int list \<Rightarrow> byte list" where
  "packedField tagByte vs =
     (if vs = [] then []
      else tagByte # varintLoop (int (length (packedPayload vs))) @ packedPayload vs)"

definition featureBody :: "MvtFeature \<Rightarrow> byte list" where
  "featureBody feature =
     packedField 0x12 (tags feature) @ 0x18 # varintLoop (type_m feature) @
     packedField 0x22 (geometry feature)"

definition featureFields :: "MvtFeature \<Rightarrow> field list" where
  "featureFields feature =
     (if tags feature = [] then [] else [LenField 2 (packedPayload (tags feature))]) @
     [VarintField 3 (nat (type_m feature))] @
     (if geometry feature = [] then [] else [LenField 4 (packedPayload (geometry feature))])"

definition uint32s :: "int list \<Rightarrow> bool" where
  "uint32s vs = list_all (\<lambda>v. 0 \<le> v \<and> v < 2 ^ 32) vs"

text \<open>
  A stream of one feature: a point with the coordinates \<open>(1.0, 2.0)\<close> and the property
  \<open>b = true\<close>, as a size-prefixed FlatBuffer. After the size (67): the offset of the root
  table; its vtable (geometry in slot 0, properties in slot 1) and the table; the vtable of
  the geometry (\<open>xy\<close> in slot 1) and its table; the vector \<open>xy\<close> of two doubles; the
  properties vector of three bytes.
\<close>

definition pointStream :: Uint8Array where
  "pointStream = bytesOf
     ([67, 0, 0, 0] @
      [12, 0, 0, 0] @
      [8, 0, 12, 0, 4, 0, 8, 0] @
      [8, 0, 0, 0, 16, 0, 0, 0, 40, 0, 0, 0] @
      [8, 0, 8, 0, 0, 0, 4, 0] @
      [8, 0, 0, 0, 4, 0, 0, 0] @
      [2, 0, 0, 0] @
      [0, 0, 0, 0, 0, 0, 0xF0, 0x3F] @ [0, 0, 0, 0, 0, 0, 0, 0x40] @
      [3, 0, 0, 0, 1, 0, 1])"

definition pointHeader :: FgbHeader where
  "pointHeader =
     \<lparr>geometryType = GT_Point, columns = twoColumns, featuresCount = 1, indexNodeSize = 16,
      indexOffset = 0, indexSize = 0, featuresOffset = 0, headerSize = 0\<rparr>"

definition pointFeature :: RawFeature where
  "pointFeature =
     \<lparr>type_f = GT_Point, xy_f = [0x3FF0000000000000, 0x4000000000000000], ends_f = None,
      parts_f = None, properties = [(''b'', PBool True)], id_f = None\<rparr>"

section \<open>Level computation: termination\<close>

lemma ceil_div_less:
  assumes "1 < n" and "2 \<le> nodeSize"
  shows "ceil_div n nodeSize < n"
proof -
  have "n + nodeSize - 1 < n * nodeSize"
  proof -
    have "n + nodeSize \<le> n * nodeSize"
    proof -
      obtain a b where ab: "n = a + 2" "nodeSize = b + 2"
        using assms by (metis add.commute le_Suc_ex nat_1_add_1 one_add_one plus_1_eq_Suc Suc_leI)
      show ?thesis unfolding ab by (simp add: algebra_simps)
    qed
    moreover have "0 < n + nodeSize" using assms by simp
    ultimately show ?thesis by linarith
  qed
  then show ?thesis
    unfolding ceil_div_def using assms
    by (simp add: less_mult_imp_div_less)
qed

lemma sumLevels_returns:
  "2 \<le> nodeSize \<Longrightarrow> \<exists>r. sumLevels n nodeSize totalNodes = Some r"
proof (induction n arbitrary: totalNodes rule: less_induct)
  case (less n)
  show ?case
  proof (cases "1 < n")
    case True
    with less.prems have "ceil_div n nodeSize < n" by (simp add: ceil_div_less)
    from less.IH [OF this less.prems] obtain r where
      "sumLevels (ceil_div n nodeSize) nodeSize (totalNodes + ceil_div n nodeSize) = Some r"
      by blast
    with True less.prems show ?thesis
      by (subst sumLevels.simps) simp
  next
    case False
    then show ?thesis by (subst sumLevels.simps) simp
  qed
qed

lemma countLevels_returns:
  "2 \<le> nodeSize \<Longrightarrow> \<exists>r. countLevels n nodeSize acc = Some r"
proof (induction n arbitrary: acc rule: less_induct)
  case (less n)
  show ?case
  proof (cases "1 < n")
    case True
    with less.prems have "ceil_div n nodeSize < n" by (simp add: ceil_div_less)
    from less.IH [OF this less.prems] obtain r where
      "countLevels (ceil_div n nodeSize) nodeSize (acc @ [ceil_div n nodeSize]) = Some r"
      by blast
    with True less.prems show ?thesis
      by (subst countLevels.simps) simp
  next
    case False
    then show ?thesis by (subst countLevels.simps) simp
  qed
qed

lemma sumLevels_nodeSize_1:
  "sumLevels n nodeSize totalNodes = Some r \<Longrightarrow> nodeSize = 1 \<Longrightarrow> n \<le> 1"
proof (induction rule: sumLevels.raw_induct [rotated 1, consumes 1])
  case (1 loop n nodeSize totalNodes r)
  then show ?case
    by (auto simp: ceil_div_def split: if_splits)
qed

lemma countLevels_nodeSize_1:
  "countLevels n nodeSize acc = Some r \<Longrightarrow> nodeSize = 1 \<Longrightarrow> n \<le> 1"
proof (induction rule: countLevels.raw_induct [rotated 1, consumes 1])
  case (1 loop n nodeSize acc r)
  then show ?case
    by (auto simp: ceil_div_def split: if_splits)
qed


lemma computeLevelBounds_doc_example:
  "computeLevelBounds 3221 16 = Some [(216, 3437), (14, 216), (1, 14), (0, 1)]"
  by (simp add: computeLevelBounds_def countLevels.simps ceil_div_def)

text \<open>
  C10.  For every feature count \<open>numItems\<close> and every \<open>nodeSize \<ge> 2\<close> the bottom-up level
  computation terminates: one iteration \<open>n := ceil (n / nodeSize)\<close> strictly decreases
  every \<open>n > 1\<close>, and both \<open>calcIndexSize\<close> and \<open>computeLevelBounds\<close> return a value.
  The bound on \<open>nodeSize\<close> is needed: with \<open>nodeSize = 1\<close> and more than one feature
  neither function returns.
\<close>

theorem level_computation_terminates:
  "(2 \<le> nodeSize \<longrightarrow>
      (1 < n \<longrightarrow> ceil_div n nodeSize < n) \<and>
      (\<exists>size. calcIndexSize numItems nodeSize = Some size) \<and>
      (\<exists>bounds. computeLevelBounds numItems nodeSize = Some bounds)) \<and>
   (1 < numItems \<longrightarrow>
      calcIndexSize numItems 1 = None \<and> computeLevelBounds numItems 1 = None)"
proof (intro conjI impI)
  assume "2 \<le> nodeSize" and "1 < n"
  then show "ceil_div n nodeSize < n" by (simp add: ceil_div_less)
next
  assume ns: "2 \<le> nodeSize"
  from sumLevels_returns [OF ns] obtain r
    where "sumLevels numItems nodeSize numItems = Some r" by blast
  then show "\<exists>size. calcIndexSize numItems nodeSize = Some size"
    by (simp add: calcIndexSize_def)
next
  assume ns: "2 \<le> nodeSize"
  from countLevels_returns [OF ns] obtain r
    where "countLevels numItems nodeSize [numItems] = Some r" by blast
  then show "\<exists>bounds. computeLevelBounds numItems nodeSize = Some bounds"
    by (simp add: computeLevelBounds_def)
next
  assume fc: "1 < numItems"
  have "sumLevels numItems 1 numItems = None"
  proof (cases "sumLevels numItems 1 numItems")
    case (Some r)
    from sumLevels_nodeSize_1 [OF this] fc show ?thesis by simp
  qed simp
  with fc show "calcIndexSize numItems 1 = None"
    by (simp add: calcIndexSize_def)
next
  assume fc: "1 < numItems"
  have "countLevels numItems 1 [numItems] = None"
  proof (cases "countLevels numItems 1 [numItems]")
    case (Some r)
    from countLevels_nodeSize_1 [OF this] fc show ?thesis by simp
  qed simp
  then show "computeLevelBounds numItems 1 = None"
    by (simp add: computeLevelBounds_def)
qed

theorem level_computation_terminates_witness:
  "(2::nat) \<le> 16 \<and> (1::nat) < 3221 \<and> ceil_div 3221 16 < 3221 \<and>
   (\<exists>size. calcIndexSize 3221 16 = Some size) \<and>
   (\<exists>bounds. computeLevelBounds 3221 16 = Some bounds) \<and>
   calcIndexSize 3221 1 = None \<and> computeLevelBounds 3221 1 = None"
  using level_computation_terminates [of 16 3221 3221] by simp

section \<open>Varints: what the writer produces\<close>

lemma and_127_mod: "(k::int) AND 127 = k mod 128"
proof -
  have "k AND mask 7 = k mod 2 ^ 7"
    by (simp add: take_bit_eq_mod flip: take_bit_eq_mask)
  then show ?thesis by (simp add: mask_eq_exp_minus_1)
qed

lemma or_128_add:
  fixes x :: int
  assumes "0 \<le> x" and "x < 128"
  shows "x OR 128 = x + 128"
proof -
  have "x AND 128 = 0"
  proof (rule bit_eqI)
    fix n
    have "(128::int) = 2 ^ 7" by simp
    then have b: "bit (128::int) n \<longleftrightarrow> n = 7" by (simp only: bit_exp_iff) simp
    have "\<not> bit x 7" using assms by (simp add: bit_iff_odd)
    with b show "bit (x AND 128) n \<longleftrightarrow> bit (0::int) n" by (auto simp: bit_and_iff)
  qed
  then show ?thesis by (simp add: disjunctive_add_eq_or)
qed

lemma toInt32_mod_128: "toInt32 v mod 128 = v mod 128"
proof -
  define q where "q = (v + 2 ^ 31) div 2 ^ 32"
  have "(v + 2 ^ 31) mod 2 ^ 32 = (v + 2 ^ 31) - 2 ^ 32 * q"
    unfolding q_def by (rule sym) (rule minus_mult_div_eq_mod)
  then have "toInt32 v = v + 128 * (- (2 ^ 25) * q)"
    by (simp add: toInt32_def)
  then show ?thesis by (simp only: mod_mult_self2)
qed

lemma continuation_byte:
  "js_or (js_and v 0x7f) 0x80 = v mod 128 + 128"
proof -
  have a: "js_and v 0x7f = v mod 128"
  proof -
    have "toInt32 127 = 127" by (simp add: toInt32_def)
    then show ?thesis by (simp add: js_and_def and_127_mod toInt32_mod_128)
  qed
  have "toInt32 (v mod 128) = v mod 128" "toInt32 128 = 128"
    by (simp_all add: toInt32_def)
  then show ?thesis
    by (simp add: a js_or_def or_128_add)
qed

lemma byte_high:
  fixes y :: int
  assumes "128 \<le> y" and "y < 256"
  shows "\<not> toUint8 y < 0x80" and "unat (toUint8 y AND 0x7f) = nat (y - 128)"
proof -
  have u: "uint (toUint8 y) = y"
    using assms by (simp add: toUint8_def uint_word_of_int)
  show "\<not> toUint8 y < 0x80"
    using assms by (simp add: word_less_def u)
  have "uint (toUint8 y AND 0x7f) = uint (toUint8 y) AND 127"
    by (simp add: uint_and)
  also have "\<dots> = y mod 128"
    by (simp only: u and_127_mod)
  also have "\<dots> = (y - 128) mod 128"
    by (simp only: minus_mod_self2)
  also have "\<dots> = y - 128" using assms by (intro mod_pos_pos_trivial) simp_all
  finally show "unat (toUint8 y AND 0x7f) = nat (y - 128)"
    by (simp add: unat_eq_nat_uint)
qed

lemma byte_low:
  fixes x :: int
  assumes "0 \<le> x" and "x < 128"
  shows "toUint8 x < 0x80" and "unat (toUint8 x) = nat x"
  using assms by (simp_all add: toUint8_def word_less_def uint_word_of_int unat_eq_nat_uint)

lemma readVarint_varintLoop:
  "0 \<le> v \<Longrightarrow> v < 2 ^ 32 \<Longrightarrow> readVarint (varintLoop v @ rest) = Some (nat v, rest)"
proof (induction v rule: varintLoop.induct)
  case (1 val)
  show ?case
  proof (cases "val > 0x7f")
    case True
    have shr: "js_shr val 7 = val div 128"
      using "1.prems" by (simp add: js_shr_def toUint32_def)
    have r: "0 \<le> val div 128" "val div 128 < 2 ^ 32"
      using "1.prems" by (simp_all add: pos_imp_zdiv_nonneg_iff) 
    have IH: "readVarint (varintLoop (val div 128) @ rest) = Some (nat (val div 128), rest)"
      using "1.IH" [OF True] r shr by simp
    have m: "0 \<le> val mod 128" "val mod 128 < 128" by simp_all
    have b: "\<not> toUint8 (val mod 128 + 128) < 0x80"
      "unat (toUint8 (val mod 128 + 128) AND 0x7f) = nat (val mod 128)"
      using byte_high [of "val mod 128 + 128"] m by simp_all
    have "nat (val mod 128) + 128 * nat (val div 128) = nat val"
    proof -
      have "int (nat (val mod 128) + 128 * nat (val div 128)) = val"
        using r m by simp
      then show ?thesis by (metis nat_int)
    qed
    with True IH b show ?thesis
      by (subst varintLoop.simps) (simp add: continuation_byte shr)
  next
    case False
    with "1.prems" byte_low [of val] show ?thesis
      by (subst varintLoop.simps) simp
  qed
qed

lemma readVarint_varintLoop_big:
  assumes "0x7f < v"
  shows "readVarint (varintLoop v @ rest) = Some (nat (v mod 2 ^ 32), rest)"
proof -
  define u where "u = v mod 2 ^ 32"
  have u: "0 \<le> u" "u < 2 ^ 32" by (simp_all add: u_def)
  have shr: "js_shr v 7 = u div 128"
    by (simp add: js_shr_def toUint32_def u_def)
  have r: "0 \<le> u div 128" "u div 128 < 2 ^ 32"
    using u by (simp_all add: pos_imp_zdiv_nonneg_iff)
  have tl: "readVarint (varintLoop (u div 128) @ rest) = Some (nat (u div 128), rest)"
    using r by (rule readVarint_varintLoop)
  have "(128::int) dvd 2 ^ 32" by simp
  then have vm: "v mod 128 = u mod 128"
    unfolding u_def by (rule mod_mod_cancel [symmetric])
  have m: "0 \<le> u mod 128" "u mod 128 < 128" by simp_all
  have b: "\<not> toUint8 (u mod 128 + 128) < 0x80"
    "unat (toUint8 (u mod 128 + 128) AND 0x7f) = nat (u mod 128)"
    using byte_high [of "u mod 128 + 128"] m by simp_all
  have "nat (u mod 128) + 128 * nat (u div 128) = nat u"
  proof -
    have "int (nat (u mod 128) + 128 * nat (u div 128)) = u"
      using r m by simp
    then show ?thesis by (metis nat_int)
  qed
  with assms tl b have "readVarint (varintLoop v @ rest) = Some (nat u, rest)"
    by (subst varintLoop.simps) (simp add: continuation_byte shr vm)
  then show ?thesis by (simp add: u_def)
qed

lemma writeVarint_roundtrip_u32:
  assumes "0 \<le> v" and "v < 2 ^ 32"
  shows "readVarint (finish (writeVarint newPbfWriter v)) = Some (nat v, [])"
  using assms readVarint_varintLoop [of v "[]"]
  by (simp add: finish_def writeVarint_def newPbfWriter_def)

lemma writeVarint_not_roundtrip_above_u32:
  assumes "2 ^ 32 \<le> v"
  shows "readVarint (finish (writeVarint newPbfWriter v)) = Some (nat (v mod 2 ^ 32), [])"
    and "nat (v mod 2 ^ 32) \<noteq> nat v"
proof -
  from assms have "0x7f < v" by simp
  from readVarint_varintLoop_big [OF this, of "[]"] assms
  show "readVarint (finish (writeVarint newPbfWriter v)) = Some (nat (v mod 2 ^ 32), [])"
    by (simp add: finish_def writeVarint_def newPbfWriter_def)
  have "v mod 2 ^ 32 < 2 ^ 32" by simp
  with assms show "nat (v mod 2 ^ 32) \<noteq> nat v" by simp
qed

text \<open>
  C1.  Writing an unsigned 64-bit value with \<open>writeVarint\<close> and reading it back with the
  standard decoding is claimed to give the value again.  At the value \<open>2 ^ 32\<close> the
  non-negative branch of \<open>writeVarint\<close>, whose operators \<^verbatim>\<open>&\<close> and \<^verbatim>\<open>>>>\<close> keep 32 bits,
  writes the two bytes \<open>0x80 0x00\<close>, which decode to \<open>0\<close>.
\<close>

theorem writeVarint_2_32_truncated:
  "finish (writeVarint newPbfWriter 4294967296) = [0x80, 0x00] \<and>
   readVarint (finish (writeVarint newPbfWriter 4294967296)) = Some (0, [])"
  by (simp add: finish_def writeVarint_def newPbfWriter_def varintLoop.simps
      js_or_def js_and_def js_shr_def toInt32_def toUint32_def toUint8_def)

lemma mergeRanges_snoc:
  assumes "rs \<noteq> []"
  shows "mergeRanges (rs @ [c]) gap = mergeStep gap (mergeRanges rs gap) c"
proof (cases rs)
  case Nil
  with assms show ?thesis by simp
next
  case (Cons r rest)
  show ?thesis
  proof (cases rest)
    case Nil
    with Cons show ?thesis by (simp add: mergeRanges_def)
  next
    case (Cons r' rest')
    with \<open>rs = r # rest\<close> show ?thesis by (simp add: mergeRanges_def)
  qed
qed

lemma maxEnd_single: "maxEnd [r] = rangeEnd r"
  by (simp add: maxEnd_def)

lemma maxEnd_snoc: "rs \<noteq> [] \<Longrightarrow> maxEnd (rs @ [c]) = max (maxEnd rs) (rangeEnd c)"
  by (simp add: maxEnd_def max.commute)

lemma covered_snoc: "covered (rs @ [c]) = covered rs \<union> {offset c ..< rangeEnd c}"
  by (auto simp: covered_def)

lemma gapBytes_snoc:
  assumes "rs \<noteq> []"
  shows "gapBytes gap (rs @ [c]) =
    gapBytes gap rs \<union> (if offset c \<le> maxEnd rs + gap then {maxEnd rs ..< offset c} else {})"
proof -
  have idx: "\<And>i. Suc i < length (rs @ [c]) \<longleftrightarrow> Suc i < length rs \<or> Suc i = length rs"
    by auto
  have old: "\<And>i. Suc i < length rs \<Longrightarrow>
      (rs @ [c]) ! Suc i = rs ! Suc i \<and> take (Suc i) (rs @ [c]) = take (Suc i) rs"
    by (simp add: nth_append)
  have new: "\<And>i. Suc i = length rs \<Longrightarrow>
      (rs @ [c]) ! Suc i = c \<and> take (Suc i) (rs @ [c]) = rs"
    by (simp add: nth_append)
  show ?thesis
  proof (rule set_eqI)
    fix b
    obtain k where k: "Suc k = length rs" using assms by (cases rs) auto
    show "b \<in> gapBytes gap (rs @ [c]) \<longleftrightarrow>
      b \<in> gapBytes gap rs \<union> (if offset c \<le> maxEnd rs + gap then {maxEnd rs ..< offset c} else {})"
      (is "?L \<longleftrightarrow> ?R")
    proof
      assume ?L
      then obtain i where i: "Suc i < length (rs @ [c])"
          "offset ((rs @ [c]) ! Suc i) \<le> maxEnd (take (Suc i) (rs @ [c])) + gap"
          "maxEnd (take (Suc i) (rs @ [c])) \<le> b" "b < offset ((rs @ [c]) ! Suc i)"
        unfolding gapBytes_def by blast
      from i(1) consider "Suc i < length rs" | "Suc i = length rs" by fastforce
      then show ?R
      proof cases
        case 1
        with i old [OF 1] have "b \<in> gapBytes gap rs"
          unfolding gapBytes_def by auto
        then show ?thesis by simp
      next
        case 2
        with i new [OF 2] show ?thesis by auto
      qed
    next
      assume ?R
      then consider "b \<in> gapBytes gap rs"
        | "offset c \<le> maxEnd rs + gap" "maxEnd rs \<le> b" "b < offset c"
        by (auto split: if_splits)
      then show ?L
      proof cases
        case 1
        then obtain i where i: "Suc i < length rs"
          "offset (rs ! Suc i) \<le> maxEnd (take (Suc i) rs) + gap"
          "maxEnd (take (Suc i) rs) \<le> b" "b < offset (rs ! Suc i)"
          unfolding gapBytes_def by blast
        with old [OF i(1)] show ?thesis
          unfolding gapBytes_def by (intro CollectI exI [of _ i]) auto
      next
        case 2
        with new [OF k] k show ?thesis
          unfolding gapBytes_def by (intro CollectI exI [of _ k]) auto
      qed
    qed
  qed
qed

lemma gapBytes_single: "gapBytes gap [r] = {}"
  by (simp add: gapBytes_def)

lemma mergeInv_single:
  assumes "0 \<le> length_r r"
  shows "mergeInv gap [r] [r]"
  using assms by (simp add: mergeInv_def maxEnd_single gapBytes_single)

lemma covered_butlast_last:
  "out \<noteq> [] \<Longrightarrow> covered out = covered (butlast out) \<union> {offset (last out) ..< rangeEnd (last out)}"
  using covered_snoc [of "butlast out" "last out"] by simp

lemma mergeStep_inv:
  assumes inv: "mergeInv gap rs out"
    and rs: "rs \<noteq> []"
    and ord: "offset (last rs) \<le> offset c"
    and len: "0 \<le> length_r c"
    and gap: "0 \<le> gap"
  shows "mergeInv gap (rs @ [c]) (mergeStep gap out c)"
proof -
  define prev where "prev = last out"
  define E where "E = maxEnd rs"
  from inv have out: "out \<noteq> []"
    and pe: "rangeEnd prev = E"
    and po: "offset prev \<le> offset (last rs)"
    and all: "\<forall>r \<in> set out. 0 \<le> length_r r \<and> rangeEnd r \<le> E"
    and cov: "covered out = covered rs \<union> gapBytes gap rs"
    and sep: "\<forall>i j. i < j \<and> j < length out \<longrightarrow> rangeEnd (out ! i) + gap < offset (out ! j)"
    by (simp_all add: mergeInv_def prev_def E_def)
  from out have prev_in: "prev \<in> set out" by (simp add: prev_def)
  with all have pl: "0 \<le> length_r prev" by blast
  have me: "maxEnd (rs @ [c]) = max E (rangeEnd c)"
    using rs by (simp add: maxEnd_snoc E_def)
  have ce: "offset c \<le> rangeEnd c" using len by (simp add: rangeEnd_def)
  show ?thesis
  proof (cases "offset c \<le> E + gap")
    case True
    define p' where "p' = prev\<lparr>length_r := max E (rangeEnd c) - offset prev\<rparr>"
    have step: "mergeStep gap out c = butlast out @ [p']"
      using True pe by (simp add: mergeStep_def Let_def prev_def p'_def rangeEnd_def)
    have p'o: "offset p' = offset prev" by (simp add: p'_def)
    have p'e: "rangeEnd p' = max E (rangeEnd c)" by (simp add: p'_def rangeEnd_def)
    have p'l: "0 \<le> length_r p'"
      using pl pe by (simp add: p'_def rangeEnd_def)
    have 1: "butlast out @ [p'] \<noteq> []" by simp
    have 2: "rangeEnd (last (butlast out @ [p'])) = maxEnd (rs @ [c])"
      by (simp add: p'e me)
    have 3: "offset (last (butlast out @ [p'])) \<le> offset (last (rs @ [c]))"
      using po ord by (simp add: p'o)
    have 4: "\<forall>r \<in> set (butlast out @ [p']). 0 \<le> length_r r \<and> rangeEnd r \<le> maxEnd (rs @ [c])"
    proof
      fix r assume "r \<in> set (butlast out @ [p'])"
      then consider "r \<in> set (butlast out)" | "r = p'" by auto
      then show "0 \<le> length_r r \<and> rangeEnd r \<le> maxEnd (rs @ [c])"
      proof cases
        case 1
        then have "r \<in> set out" by (rule in_set_butlastD)
        with all show ?thesis by (auto simp: me)
      next
        case 2
        with p'l p'e show ?thesis by (simp add: me)
      qed
    qed
    have span: "{offset p' ..< rangeEnd p'} =
        {offset prev ..< rangeEnd prev} \<union> {offset c ..< rangeEnd c} \<union> {E ..< offset c}"
      using pl pe po ord ce True unfolding p'o p'e
      by (auto simp: rangeEnd_def)
    have 5: "covered (butlast out @ [p']) =
        covered (rs @ [c]) \<union> gapBytes gap (rs @ [c])"
    proof -
      have "covered (butlast out @ [p']) = covered (butlast out) \<union> {offset p' ..< rangeEnd p'}"
        by (rule covered_snoc)
      also have "\<dots> = covered out \<union> {offset c ..< rangeEnd c} \<union> {E ..< offset c}"
        unfolding span covered_butlast_last [OF out] prev_def by blast
      also have "\<dots> = covered (rs @ [c]) \<union> gapBytes gap (rs @ [c])"
        using True unfolding cov covered_snoc gapBytes_snoc [OF rs] E_def by auto
      finally show ?thesis .
    qed
    have 6: "\<forall>i j. i < j \<and> j < length (butlast out @ [p']) \<longrightarrow>
        rangeEnd ((butlast out @ [p']) ! i) + gap < offset ((butlast out @ [p']) ! j)"
    proof (intro allI impI)
      fix i j assume ij: "i < j \<and> j < length (butlast out @ [p'])"
      then have j: "j < length out" and i: "i < length out - 1" using out by auto
      have oi: "(butlast out @ [p']) ! i = out ! i"
        using i by (simp add: nth_append nth_butlast)
      have oj: "offset ((butlast out @ [p']) ! j) = offset (out ! j)"
      proof (cases "j < length out - 1")
        case True
        then show ?thesis by (simp add: nth_append nth_butlast)
      next
        case False
        with j have "j = length out - 1" by simp
        then show ?thesis
          using out by (simp add: nth_append p'o prev_def last_conv_nth)
      qed
      from sep ij j show "rangeEnd ((butlast out @ [p']) ! i) + gap < offset ((butlast out @ [p']) ! j)"
        unfolding oi oj by blast
    qed
    from 1 2 3 4 5 6 show ?thesis
      unfolding step mergeInv_def by blast
  next
    case False
    then have far: "E + gap < offset c" by simp
    have step: "mergeStep gap out c = out @ [c]"
      using False pe by (simp add: mergeStep_def Let_def prev_def rangeEnd_def)
    have me': "maxEnd (rs @ [c]) = rangeEnd c"
      using far gap ce by (simp add: me)
    have 4: "\<forall>r \<in> set (out @ [c]). 0 \<le> length_r r \<and> rangeEnd r \<le> maxEnd (rs @ [c])"
      using all len far gap ce by (auto simp: me')
    have 5: "covered (out @ [c]) = covered (rs @ [c]) \<union> gapBytes gap (rs @ [c])"
      using False unfolding cov covered_snoc gapBytes_snoc [OF rs] E_def by auto
    have 6: "\<forall>i j. i < j \<and> j < length (out @ [c]) \<longrightarrow>
        rangeEnd ((out @ [c]) ! i) + gap < offset ((out @ [c]) ! j)"
    proof (intro allI impI)
      fix i j assume ij: "i < j \<and> j < length (out @ [c])"
      show "rangeEnd ((out @ [c]) ! i) + gap < offset ((out @ [c]) ! j)"
      proof (cases "j < length out")
        case True
        with ij sep show ?thesis by (simp add: nth_append)
      next
        case False
        with ij have j: "j = length out" and i: "i < length out" by auto
        from i have "out ! i \<in> set out" by simp
        with all have "rangeEnd (out ! i) \<le> E" by blast
        with far i j show ?thesis by (simp add: nth_append)
      qed
    qed
    from 4 5 6 me' show ?thesis
      unfolding step mergeInv_def by simp
  qed
qed

lemma mergeRanges_inv:
  assumes "rs \<noteq> []" and "sorted (map offset rs)" and "\<forall>r \<in> set rs. 0 \<le> length_r r"
    and "0 \<le> gap"
  shows "mergeInv gap rs (mergeRanges rs gap)"
  using assms
proof (induction rs rule: rev_nonempty_induct)
  case (single r)
  then show ?case by (simp add: mergeRanges_def mergeInv_single)
next
  case (snoc c rs)
  from snoc.prems have s: "sorted (map offset rs)" and l: "\<forall>r \<in> set rs. 0 \<le> length_r r"
    by (simp_all add: sorted_append)
  from snoc.prems snoc.hyps have ord: "offset (last rs) \<le> offset c"
    by (simp add: sorted_append)
  from snoc.prems have len: "0 \<le> length_r c" by simp
  from snoc.IH [OF s l \<open>0 \<le> gap\<close>] snoc.hyps ord len \<open>0 \<le> gap\<close>
  show ?case
    unfolding mergeRanges_snoc [OF snoc.hyps] by (rule mergeStep_inv)
qed

text \<open>
  C6.  For ranges sorted ascending by offset (with non-negative lengths), the bytes covered
  by \<open>mergeRanges\<close> with \<open>GAP = 512\<close> are the bytes of the input ranges together with
  exactly the gaps of at most \<open>GAP\<close> bytes between the ranges read so far and the next
  one; a further range is coalesced with the last merged range precisely when it starts
  at most \<open>GAP\<close> bytes after that range's end, the merged length then being
  \<open>max prevEnd currEnd - prevStart\<close>; and two output ranges are never within \<open>GAP + 1\<close>
  bytes of each other: the later one starts at least \<open>GAP + 1\<close> bytes after the end of
  the earlier one, so any two bytes they cover lie more than \<open>GAP + 1\<close> apart.
\<close>

theorem mergeRanges_correct:
  assumes "sorted (map offset rs)" and "\<forall>r \<in> set rs. 0 \<le> length_r r"
  shows "covered (mergeRanges rs GAP) = covered rs \<union> gapBytes GAP rs \<and>
    (\<forall>c. rs \<noteq> [] \<longrightarrow>
       mergeRanges (rs @ [c]) GAP =
         (if offset c \<le> maxEnd rs + GAP
          then butlast (mergeRanges rs GAP) @
                 [\<lparr>offset = offset (last (mergeRanges rs GAP)),
                   length_r = max (maxEnd rs) (offset c + length_r c)
                              - offset (last (mergeRanges rs GAP))\<rparr>]
          else mergeRanges rs GAP @ [c])) \<and>
    (\<forall>i j. i < j \<and> j < length (mergeRanges rs GAP) \<longrightarrow>
       GAP + 1 \<le> offset (mergeRanges rs GAP ! j) - rangeEnd (mergeRanges rs GAP ! i) \<and>
       (\<forall>p q. p \<in> {offset (mergeRanges rs GAP ! i) ..< rangeEnd (mergeRanges rs GAP ! i)} \<and>
              q \<in> {offset (mergeRanges rs GAP ! j) ..< rangeEnd (mergeRanges rs GAP ! j)}
          \<longrightarrow> GAP + 1 < q - p))"
proof (cases "rs = []")
  case True
  then show ?thesis
    by (simp add: mergeRanges_def covered_def gapBytes_def)
next
  case False
  define out where "out = mergeRanges rs GAP"
  have gap: "0 \<le> GAP" by (simp add: GAP_def)
  from mergeRanges_inv [OF False assms gap]
  have out: "out \<noteq> []"
    and pe: "rangeEnd (last out) = maxEnd rs"
    and cov: "covered out = covered rs \<union> gapBytes GAP rs"
    and sep: "\<forall>i j. i < j \<and> j < length out \<longrightarrow> rangeEnd (out ! i) + GAP < offset (out ! j)"
    by (simp_all add: mergeInv_def out_def)
  have step: "\<forall>c. mergeRanges (rs @ [c]) GAP =
         (if offset c \<le> maxEnd rs + GAP
          then butlast out @
                 [\<lparr>offset = offset (last out),
                   length_r = max (maxEnd rs) (offset c + length_r c) - offset (last out)\<rparr>]
          else out @ [c])"
  proof
    fix c
    have "rangeEnd (last out) = offset (last out) + length_r (last out)"
      by (simp add: rangeEnd_def)
    with pe have e: "offset (last out) + length_r (last out) = maxEnd rs" by simp
    show "mergeRanges (rs @ [c]) GAP =
         (if offset c \<le> maxEnd rs + GAP
          then butlast out @
                 [\<lparr>offset = offset (last out),
                   length_r = max (maxEnd rs) (offset c + length_r c) - offset (last out)\<rparr>]
          else out @ [c])"
      unfolding mergeRanges_snoc [OF False] out_def [symmetric]
      by (simp add: mergeStep_def Let_def e)
  qed
  have far: "\<forall>i j. i < j \<and> j < length out \<longrightarrow>
       GAP + 1 \<le> offset (out ! j) - rangeEnd (out ! i) \<and>
       (\<forall>p q. p \<in> {offset (out ! i) ..< rangeEnd (out ! i)} \<and>
              q \<in> {offset (out ! j) ..< rangeEnd (out ! j)}
          \<longrightarrow> GAP + 1 < q - p)"
  proof (intro allI impI)
    fix i j assume "i < j \<and> j < length out"
    with sep have "rangeEnd (out ! i) + GAP < offset (out ! j)" by blast
    then show "GAP + 1 \<le> offset (out ! j) - rangeEnd (out ! i) \<and>
       (\<forall>p q. p \<in> {offset (out ! i) ..< rangeEnd (out ! i)} \<and>
              q \<in> {offset (out ! j) ..< rangeEnd (out ! j)}
          \<longrightarrow> GAP + 1 < q - p)"
      by auto
  qed
  from cov step far False show ?thesis
    unfolding out_def by blast
qed

lemma mergeRanges_threeRanges:
  "mergeRanges threeRanges GAP = [\<lparr>offset = 0, length_r = 110\<rparr>, \<lparr>offset = 623, length_r = 10\<rparr>]"
  by (simp add: threeRanges_def mergeRanges_def mergeStep_def GAP_def)

theorem mergeRanges_correct_witness:
  "sorted (map offset threeRanges) \<and> list_all (\<lambda>r. 0 \<le> length_r r) threeRanges \<and>
   covered (mergeRanges threeRanges GAP) = covered threeRanges \<union> gapBytes GAP threeRanges \<and>
   GAP + 1 \<le> offset (mergeRanges threeRanges GAP ! 1) - rangeEnd (mergeRanges threeRanges GAP ! 0)"
proof -
  have h1: "sorted (map offset threeRanges)" by (simp add: threeRanges_def)
  have h2: "\<forall>r \<in> set threeRanges. 0 \<le> length_r r" by (simp add: threeRanges_def)
  have "(0::nat) < 1 \<and> 1 < length (mergeRanges threeRanges GAP)"
    by (simp add: mergeRanges_threeRanges)
  with mergeRanges_correct [OF h1 h2] h1 h2 show ?thesis unfolding list_all_iff by blast
qed

lemma length_pairsOf: "length (pairsOf cs) = length cs div 2"
  by (induction cs rule: pairsOf.induct) simp_all

lemma pairsOf_nth:
  "i < length cs div 2 \<Longrightarrow> pairsOf cs ! i = (cs ! (i * 2), cs ! (i * 2 + 1))"
proof (induction cs arbitrary: i rule: pairsOf.induct)
  case (1 x y rest)
  then show ?case by (cases i) simp_all
qed simp_all

lemma coordAt_pairs:
  assumes "i < length (pairsOf cs)"
  shows "coordAt cs (i * 2) = Some (fst (pairsOf cs ! i))"
    and "coordAt cs (i * 2 + 1) = Some (snd (pairsOf cs ! i))"
proof -
  from assms have i: "i < length cs div 2" by (simp add: length_pairsOf)
  then have "i * 2 + 1 < length cs" by linarith
  with i show "coordAt cs (i * 2) = Some (fst (pairsOf cs ! i))"
    and "coordAt cs (i * 2 + 1) = Some (snd (pairsOf cs ! i))"
    by (simp_all add: coordAt_def pairsOf_nth)
qed

lemma slice_Suc:
  assumes "s \<le> e" and "e < length ps"
  shows "slice ps s (Suc e) = slice ps s e @ [ps ! e]"
proof -
  have "Suc e - s = Suc (e - s)" using assms by simp
  moreover have "e - s < length (drop s ps)" using assms by simp
  moreover have "drop s ps ! (e - s) = ps ! e" using assms by simp
  ultimately show ?thesis
    by (simp add: slice_def take_Suc_conv_app_nth)
qed

lemma slice_empty [simp]: "slice ps s s = []"
  by (simp add: slice_def)

lemma length_slice: "e \<le> length ps \<Longrightarrow> length (slice ps s e) = e - s"
  by (simp add: slice_def)

lemma slice_nth: "e \<le> length ps \<Longrightarrow> i < e - s \<Longrightarrow> slice ps s e ! i = ps ! (s + i)"
  by (simp add: slice_def)

lemma spec_deltas_snoc:
  "spec_deltas c (xs @ [p]) = spec_deltas c xs @ spec_deltas (last (c # xs)) [p]"
proof (induction xs arbitrary: c)
  case Nil
  then show ?case by simp
next
  case (Cons x xs)
  obtain cx cy where c: "c = (cx, cy)" by (cases c)
  obtain a b where x: "x = (a, b)" by (cases x)
  from Cons [of "(a, b)"] show ?case
    by (simp add: c x)
qed

lemma spec_deltas_single:
  "spec_deltas c [p] = [zigzag (fst p - fst c), zigzag (snd p - snd c)]"
  by (cases c, cases p) simp

lemma lineTo_loop:
  assumes "s \<le> e" and "e \<le> length (pairsOf coords)"
  shows "foldl (lineToStep coords) (cmds, Some cx, Some cy) [s ..< e] =
    (cmds @ spec_deltas (cx, cy) (slice (pairsOf coords) s e),
     Some (fst (last ((cx, cy) # slice (pairsOf coords) s e))),
     Some (snd (last ((cx, cy) # slice (pairsOf coords) s e))))"
  using assms
proof (induction e)
  case 0
  then show ?case by simp
next
  case (Suc e)
  show ?case
  proof (cases "s = Suc e")
    case True
    then show ?thesis by simp
  next
    case False
    with Suc.prems have se: "s \<le> e" and e: "e < length (pairsOf coords)" by simp_all
    let ?ps = "pairsOf coords"
    obtain x y where p: "?ps ! e = (x, y)" by (cases "?ps ! e")
    have IH: "foldl (lineToStep coords) (cmds, Some cx, Some cy) [s ..< e] =
      (cmds @ spec_deltas (cx, cy) (slice ?ps s e),
       Some (fst (last ((cx, cy) # slice ?ps s e))),
       Some (snd (last ((cx, cy) # slice ?ps s e))))"
      using Suc.IH se e by simp
    have up: "[s ..< Suc e] = [s ..< e] @ [e]" using se by simp
    show ?thesis
      unfolding up foldl_append IH slice_Suc [OF se e] spec_deltas_snoc
      using coordAt_pairs [OF e]
      by (simp add: lineToStep_def p js_sub_def zigzagN_def spec_deltas_single)
  qed
qed

lemma slice_Cons:
  assumes "s < e" and "e \<le> length ps"
  shows "slice ps s e = ps ! s # slice ps (Suc s) e"
proof -
  from assms have "s < length ps" by simp
  then have "drop s ps = ps ! s # drop (Suc s) ps" by (rule Cons_nth_drop_Suc [symmetric])
  moreover from assms have "e - s = Suc (e - Suc s)" by simp
  ultimately show ?thesis by (simp add: slice_def)
qed

lemma slice_last:
  assumes "s < e" and "e \<le> length ps"
  shows "last (slice ps s e) = ps ! (e - 1)"
proof -
  from assms have "slice ps s e \<noteq> []" by (simp add: slice_def)
  then have "last (slice ps s e) = slice ps s e ! (length (slice ps s e) - 1)"
    by (rule last_conv_nth)
  also have "\<dots> = ps ! (s + (e - s - 1))"
    using assms by (simp add: length_slice slice_nth)
  also have "s + (e - s - 1) = e - 1" using assms by simp
  finally show ?thesis .
qed

lemma slice_butlast:
  assumes "s < e" and "e \<le> length ps"
  shows "butlast (slice ps s e) = slice ps s (e - 1)"
proof -
  from assms obtain e' where e': "e = Suc e'" by (cases e) simp_all
  with assms have "s \<le> e'" "e' < length ps" by simp_all
  from slice_Suc [OF this] show ?thesis by (simp add: e')
qed

lemma emitted_ring:
  assumes se: "s < e'" and e': "e' \<le> length (pairsOf coords)" and k: "2 \<le> e' - s - 1"
  shows "(case foldl (lineToStep coords)
             (cmds @ [commandInt CMD_MOVE_TO 1] @
                [zigzagN (js_sub (coordAt coords (s * 2)) (Some cx)),
                 zigzagN (js_sub (coordAt coords (s * 2 + 1)) (Some cy))] @
                [commandInt CMD_LINE_TO (int (e' - s - 1))],
              coordAt coords (s * 2), coordAt coords (s * 2 + 1))
             [s + 1 ..< e'] of
           (cmds3, cx', cy') \<Rightarrow> (cmds3 @ [commandInt CMD_CLOSE_PATH 1], cx', cy')) =
         (cmds @ [commandInt CMD_MOVE_TO 1] @ spec_deltas (cx, cy) [hd (slice (pairsOf coords) s e')] @
            [commandInt CMD_LINE_TO (int (e' - s - 1))] @
            spec_deltas (hd (slice (pairsOf coords) s e')) (tl (slice (pairsOf coords) s e')) @
            [commandInt CMD_CLOSE_PATH 1],
          Some (fst (last (slice (pairsOf coords) s e'))),
          Some (snd (last (slice (pairsOf coords) s e'))))"
proof -
  let ?ps = "pairsOf coords"
  from se e' have s: "s < length ?ps" by simp
  obtain x y where p: "?ps ! s = (x, y)" by (cases "?ps ! s")
  have c: "coordAt coords (s * 2) = Some x" "coordAt coords (s * 2 + 1) = Some y"
    using coordAt_pairs [OF s] by (simp_all add: p)
  have vs: "slice ?ps s e' = (x, y) # slice ?ps (Suc s) e'"
    using slice_Cons [OF se e'] by (simp add: p)
  have "Suc s \<le> e'" using se by simp
  from lineTo_loop [OF this e', of "cmds @ [commandInt CMD_MOVE_TO 1] @
                [zigzag (x - cx), zigzag (y - cy)] @
                [commandInt CMD_LINE_TO (int (e' - s - 1))]" x y]
  have loop: "foldl (lineToStep coords)
      (cmds @ [commandInt CMD_MOVE_TO 1, zigzag (x - cx), zigzag (y - cy),
               commandInt CMD_LINE_TO (int (e' - s - 1))], Some x, Some y) [Suc s ..< e'] =
     (cmds @ [commandInt CMD_MOVE_TO 1, zigzag (x - cx), zigzag (y - cy),
               commandInt CMD_LINE_TO (int (e' - s - 1))] @
        spec_deltas (x, y) (slice ?ps (Suc s) e'),
      Some (fst (last ((x, y) # slice ?ps (Suc s) e'))),
      Some (snd (last ((x, y) # slice ?ps (Suc s) e'))))"
    by simp
  have ne': "slice ?ps (Suc s) e' \<noteq> []"
  proof -
    from k e' have "0 < e' - Suc s" and "Suc s < length ?ps" by linarith+
    then show ?thesis by (simp add: slice_def)
  qed
  have "foldl (lineToStep coords)
             (cmds @ [commandInt CMD_MOVE_TO 1] @
                [zigzagN (js_sub (coordAt coords (s * 2)) (Some cx)),
                 zigzagN (js_sub (coordAt coords (s * 2 + 1)) (Some cy))] @
                [commandInt CMD_LINE_TO (int (e' - s - 1))],
              coordAt coords (s * 2), coordAt coords (s * 2 + 1))
             [s + 1 ..< e'] =
     (cmds @ [commandInt CMD_MOVE_TO 1, zigzag (x - cx), zigzag (y - cy),
               commandInt CMD_LINE_TO (int (e' - s - 1))] @
        spec_deltas (x, y) (slice ?ps (Suc s) e'),
      Some (fst (last ((x, y) # slice ?ps (Suc s) e'))),
      Some (snd (last ((x, y) # slice ?ps (Suc s) e'))))"
    using c loop ne' by (simp add: js_sub_def zigzagN_def)
  then show ?thesis
    unfolding vs using ne' by (simp add: spec_deltas_single)
qed

lemma polygonRing_skip:
  assumes "e - s < 3 \<or>
     (if coordAt coords (s * 2) = coordAt coords ((e - 1) * 2) \<and>
         coordAt coords (s * 2 + 1) = coordAt coords ((e - 1) * 2 + 1)
      then e - s - 2 else e - s - 1) < 2"
  shows "polygonRing coords st (s, e) = st"
  using assms by (cases st) (auto simp: polygonRing_def Let_def)

lemma polygonRing_emit:
  assumes "\<not> e - s < 3"
    and "isClosed \<longleftrightarrow> coordAt coords (s * 2) = coordAt coords ((e - 1) * 2) \<and>
         coordAt coords (s * 2 + 1) = coordAt coords ((e - 1) * 2 + 1)"
    and "e' = (if isClosed then e - 1 else e)"
    and "\<not> e' - s - 1 < 2"
  shows "polygonRing coords (cmds, cx, cy) (s, e) =
    (case foldl (lineToStep coords)
             (cmds @ [commandInt CMD_MOVE_TO 1] @
                [zigzagN (js_sub (coordAt coords (s * 2)) cx),
                 zigzagN (js_sub (coordAt coords (s * 2 + 1)) cy)] @
                [commandInt CMD_LINE_TO (int (e' - s - 1))],
              coordAt coords (s * 2), coordAt coords (s * 2 + 1))
             [s + 1 ..< e'] of
           (cmds3, cx', cy') \<Rightarrow> (cmds3 @ [commandInt CMD_CLOSE_PATH 1], cx', cy'))"
proof (cases isClosed)
  case True
  with assms have e': "e' = e - 1" and k: "\<not> e - s - 2 < 2" by simp_all
  have eq: "e - s - 2 = e' - s - 1" by (simp add: e')
  from True assms(2) have c: "coordAt coords (s * 2) = coordAt coords ((e - 1) * 2) \<and>
         coordAt coords (s * 2 + 1) = coordAt coords ((e - 1) * 2 + 1)" by simp
  show ?thesis
    unfolding polygonRing_def Let_def prod.case if_not_P [OF assms(1)] if_P [OF c] append_assoc
    unfolding if_not_P [OF k]
    unfolding eq e' ..
next
  case False
  with assms have e': "e' = e" and k: "\<not> e - s - 1 < 2" by simp_all
  from False assms(2) have c: "\<not> (coordAt coords (s * 2) = coordAt coords ((e - 1) * 2) \<and>
         coordAt coords (s * 2 + 1) = coordAt coords ((e - 1) * 2 + 1))" by simp
  show ?thesis
    unfolding polygonRing_def Let_def prod.case if_not_P [OF assms(1)] if_not_P [OF c] append_assoc
    unfolding if_not_P [OF k]
    unfolding e' ..
qed

lemma polygonRing_spec:
  assumes se: "s \<le> e" and e: "e \<le> length (pairsOf coords)"
  shows "polygonRing coords (cmds, Some cx, Some cy) (s, e) =
    (case spec_ring (cx, cy) (slice (pairsOf coords) s e) of
       (out, c') \<Rightarrow> (cmds @ out, Some (fst c'), Some (snd c')))"
proof -
  let ?ps = "pairsOf coords"
  let ?ring = "slice ?ps s e"
  let ?closed = "coordAt coords (s * 2) = coordAt coords ((e - 1) * 2) \<and>
        coordAt coords (s * 2 + 1) = coordAt coords ((e - 1) * 2 + 1)"
  have n: "length ?ring = e - s" using e by (rule length_slice)
  show ?thesis
  proof (cases "e - s < 3")
    case True
    have "length (spec_effective ?ring) \<le> length ?ring"
      by (simp add: spec_effective_def)
    with True n have "length (spec_effective ?ring) < 3" by simp
    with True show ?thesis
      by (simp add: polygonRing_skip spec_ring_def Let_def)
  next
    case False
    then have s: "s < e" and s': "s < length ?ps" and l': "e - 1 < length ?ps"
      using e by simp_all
    have ne: "?ring \<noteq> []" using False n by auto
    have hd: "hd ?ring = ?ps ! s" using slice_Cons [OF s e] by simp
    have la: "last ?ring = ?ps ! (e - 1)" using s e by (rule slice_last)
    have closed: "?closed \<longleftrightarrow> spec_closed ?ring"
      using coordAt_pairs [OF s'] coordAt_pairs [OF l'] ne
      by (auto simp: spec_closed_def hd la prod_eq_iff)
    define e' where "e' = (if spec_closed ?ring then e - 1 else e)"
    have vs: "spec_effective ?ring = slice ?ps s e'"
      using slice_butlast [OF s e] by (simp add: spec_effective_def e'_def)
    have e'le: "e' \<le> length ?ps" using e by (auto simp: e'_def)
    have lv: "length (slice ?ps s e') = e' - s"
      using e'le by (rule length_slice)
    have k: "(if spec_closed ?ring then e - s - 2 else e - s - 1) = e' - s - 1"
      by (simp add: e'_def)
    show ?thesis
    proof (cases "e' - s - 1 < 2")
      case lt: True
      with lv have "length (spec_effective ?ring) < 3" by (simp add: vs)
      moreover have "polygonRing coords (cmds, Some cx, Some cy) (s, e) = (cmds, Some cx, Some cy)"
        using lt k closed by (intro polygonRing_skip) simp
      ultimately show ?thesis
        by (simp add: spec_ring_def Let_def)
    next
      case ge: False
      then have a: "s < e'" "2 \<le> e' - s - 1" by simp_all
      from ge lv have three: "3 \<le> length (spec_effective ?ring)" by (simp add: vs)
      have e'2: "e' = (if spec_closed ?ring then e - 1 else e)" by (simp add: e'_def)
      have "polygonRing coords (cmds, Some cx, Some cy) (s, e) =
        (cmds @ [commandInt CMD_MOVE_TO 1] @ spec_deltas (cx, cy) [hd (slice ?ps s e')] @
            [commandInt CMD_LINE_TO (int (e' - s - 1))] @
            spec_deltas (hd (slice ?ps s e')) (tl (slice ?ps s e')) @
            [commandInt CMD_CLOSE_PATH 1],
          Some (fst (last (slice ?ps s e'))),
          Some (snd (last (slice ?ps s e'))))"
        unfolding polygonRing_emit [OF False closed [symmetric] e'2 ge]
        by (rule emitted_ring [OF a(1) e'le a(2)])
      moreover have "spec_ring (cx, cy) ?ring =
        ([commandInt CMD_MOVE_TO 1] @ spec_deltas (cx, cy) [hd (slice ?ps s e')] @
            [commandInt CMD_LINE_TO (int (e' - s - 1))] @
            spec_deltas (hd (slice ?ps s e')) (tl (slice ?ps s e')) @
            [commandInt CMD_CLOSE_PATH 1], last (slice ?ps s e'))"
        using three k by (simp add: spec_ring_def Let_def vs n)
      ultimately show ?thesis by simp
    qed
  qed
qed

lemma spec_ring_empty: "spec_ring c [] = ([], c)"
  by (simp add: spec_ring_def spec_effective_def spec_closed_def)

lemma cutRings_slice:
  "cutRings start (e # es) ps = slice ps start e # cutRings e es ps"
  by (simp add: slice_def)

lemma rings_fold:
  assumes "sorted (start # es)" and "\<forall>e \<in> set es. e \<le> length (pairsOf coords)"
  shows "\<exists>cx' cy'. foldl (polygonRing coords) (cmds, Some cx, Some cy) (ringBoundsLoop start es) =
    (cmds @ spec_polygons (cx, cy) (cutRings start es (pairsOf coords)), Some cx', Some cy')"
  using assms
proof (induction es arbitrary: start cmds cx cy)
  case Nil
  then show ?case by simp
next
  case (Cons e es)
  let ?ps = "pairsOf coords"
  from Cons.prems have se: "start \<le> e" and so: "sorted (e # es)"
    and le: "e \<le> length ?ps" and les: "\<forall>e \<in> set es. e \<le> length ?ps"
    by simp_all
  obtain out c' where sr: "spec_ring (cx, cy) (slice ?ps start e) = (out, c')"
    by (cases "spec_ring (cx, cy) (slice ?ps start e)")
  have step: "polygonRing coords (cmds, Some cx, Some cy) (start, e) =
      (cmds @ out, Some (fst c'), Some (snd c'))"
    using polygonRing_spec [OF se le, of cmds cx cy] by (simp add: sr)
  from Cons.IH [OF so les, of "cmds @ out" "fst c'" "snd c'"]
  obtain cx' cy' where IH: "foldl (polygonRing coords) (cmds @ out, Some (fst c'), Some (snd c'))
      (ringBoundsLoop e es) =
      ((cmds @ out) @ spec_polygons (fst c', snd c') (cutRings e es ?ps), Some cx', Some cy')"
    by blast
  show ?case
  proof (cases "e > start")
    case True
    then have "foldl (polygonRing coords) (cmds, Some cx, Some cy) (ringBoundsLoop start (e # es)) =
      foldl (polygonRing coords) (cmds @ out, Some (fst c'), Some (snd c')) (ringBoundsLoop e es)"
      by (simp add: step)
    with IH show ?thesis
      unfolding cutRings_slice by (simp add: sr)
  next
    case False
    with se have eq: "e = start" by simp
    with sr have "out = []" "c' = (cx, cy)" by (simp_all add: spec_ring_empty)
    with IH eq show ?thesis
      unfolding cutRings_slice by (simp add: spec_ring_empty)
  qed
qed

lemma whole_ring:
  "\<exists>cx' cy'. foldl (polygonRing coords) ([], Some 0, Some 0) [(0, length coords div 2)] =
    (spec_polygons (0, 0) [pairsOf coords], Some cx', Some cy')"
proof -
  let ?ps = "pairsOf coords"
  have l: "length coords div 2 = length ?ps" by (simp add: length_pairsOf)
  have sl: "slice ?ps 0 (length ?ps) = ?ps" by (simp add: slice_def)
  obtain out c' where sr: "spec_ring (0, 0) ?ps = (out, c')"
    by (cases "spec_ring (0, 0) ?ps")
  from polygonRing_spec [of 0 "length ?ps" coords "[]" 0 0]
  show ?thesis by (simp add: l sl sr)
qed

text \<open>
  C4.  On a flat array of whole pairs with well-formed \<open>ends\<close>, \<open>encodePolygons\<close> emits
  for each ring with at least 3 effective vertices \<open>MoveTo(1)\<close> and the first zigzag
  delta, \<open>LineTo(k)\<close> with \<open>k = n - 2\<close> for an explicitly closed ring and \<open>k = n - 1\<close>
  otherwise followed by the remaining deltas, and \<open>ClosePath(1)\<close>; other rings are
  dropped; the cursor starts at \<open>(0, 0)\<close> and persists across the rings.  The closed
  triangle \<open>[(0,0), (10,0), (10,10), (0,0)]\<close> with \<open>ends = [4]\<close> encodes to
  \<open>[9, 0, 0, 18, 20, 0, 0, 20, 15]\<close>.
\<close>

theorem encodePolygons_spec:
  assumes "even (length coords)" and "wellFormedEnds (length coords div 2) ends"
  shows "encodePolygons coords ends = spec_polygons (0, 0) (ringsOf coords ends) \<and>
         encodePolygons closedTriangle (Some [4]) = [9, 0, 0, 18, 20, 0, 0, 20, 15]"
proof
  show "encodePolygons coords ends = spec_polygons (0, 0) (ringsOf coords ends)"
  proof (cases ends)
    case None
    with whole_ring [of coords] show ?thesis
      by (auto simp: encodePolygons_def getRingBounds_def ringsOf_def)
  next
    case (Some es)
    show ?thesis
    proof (cases "es = []")
      case True
      with Some whole_ring [of coords] show ?thesis
        by (auto simp: encodePolygons_def getRingBounds_def ringsOf_def)
    next
      case False
      from assms(2) Some have "sorted (0 # es)"
        and "\<forall>e \<in> set es. e \<le> length (pairsOf coords)"
        by (simp_all add: wellFormedEnds_def length_pairsOf)
      from rings_fold [OF this, of "[]" 0 0] Some False show ?thesis
        by (auto simp: encodePolygons_def getRingBounds_def ringsOf_def)
    qed
  qed
next
  show "encodePolygons closedTriangle (Some [4]) = [9, 0, 0, 18, 20, 0, 0, 20, 15]"
    by code_simp
qed

theorem encodePolygons_spec_witness:
  "even (length closedTriangle) \<and> wellFormedEnds (length closedTriangle div 2) (Some [4]) \<and>
   encodePolygons closedTriangle (Some [4]) =
     spec_polygons (0, 0) (ringsOf closedTriangle (Some [4])) \<and>
   ringsOf closedTriangle (Some [4]) = [[(0, 0), (10, 0), (10, 10), (0, 0)]]"
proof -
  have h1: "even (length closedTriangle)" by (simp add: closedTriangle_def)
  have h2: "wellFormedEnds (length closedTriangle div 2) (Some [4])"
    by (simp add: closedTriangle_def wellFormedEnds_def)
  have "ringsOf closedTriangle (Some [4]) = [[(0, 0), (10, 0), (10, 10), (0, 0)]]"
    by (simp add: ringsOf_def closedTriangle_def)
  with encodePolygons_spec [OF h1 h2] h1 h2 show ?thesis by simp
qed

subsection \<open>The shoelace sum of a reversed ring\<close>

lemma pathSum_single: "pathSum p [q] = (fst q - fst p) * (snd q + snd p)"
  by (cases p, cases q) simp

lemma pathSum_snoc: "pathSum p (xs @ [q]) = pathSum p xs + pathSum (last (p # xs)) [q]"
proof (induction xs arbitrary: p)
  case Nil
  then show ?case by simp
next
  case (Cons x xs)
  obtain px py where p: "p = (px, py)" by (cases p)
  obtain a b where x: "x = (a, b)" by (cases x)
  from Cons [of "(a, b)"] show ?case by (simp add: p x)
qed

lemma pathSum_Cons: "pathSum p (q # xs) = pathSum p [q] + pathSum q xs"
  by (cases p, cases q) simp

lemma pathSum_flip: "pathSum q [p] = - pathSum p [q]"
  by (simp add: pathSum_single algebra_simps)

lemma pathSum_rev: "pathSum q (rev xs @ [p]) = - pathSum p (xs @ [q])"
proof (induction xs arbitrary: p)
  case Nil
  show ?case using pathSum_flip [of q p] by simp
next
  case (Cons x xs)
  have "pathSum q (rev (x # xs) @ [p]) = pathSum q ((rev xs @ [x]) @ [p])" by simp
  also have "\<dots> = pathSum q (rev xs @ [x]) + pathSum x [p]"
    by (subst pathSum_snoc) simp
  also have "pathSum q (rev xs @ [x]) = - pathSum x (xs @ [q])" by (rule Cons.IH)
  also have "pathSum x [p] = - pathSum p [x]" by (rule pathSum_flip)
  also have "- pathSum x (xs @ [q]) + - pathSum p [x] = - pathSum p (x # xs @ [q])"
    by (subst (2) pathSum_Cons) simp
  finally show ?case by simp
qed

lemma pathSum_rotate: "pathSum (last (l # zs)) (l # zs) = pathSum l (zs @ [l])"
proof (cases zs rule: rev_cases)
  case Nil
  then show ?thesis by simp
next
  case (snoc ws m)
  have "pathSum (last (l # zs)) (l # zs) = pathSum m (l # ws @ [m])"
    by (simp add: snoc)
  also have "\<dots> = pathSum m [l] + pathSum l (ws @ [m])" by (rule pathSum_Cons)
  finally have 1: "pathSum (last (l # zs)) (l # zs) = pathSum m [l] + pathSum l (ws @ [m])" .
  have 2: "pathSum l (zs @ [l]) = pathSum l (ws @ [m]) + pathSum m [l]"
    unfolding snoc by (subst pathSum_snoc) simp
  from 1 2 show ?thesis by simp
qed

lemma shoelace_rev: "shoelace (rev ring) = - shoelace ring"
proof (cases ring rule: rev_cases)
  case Nil
  then show ?thesis by (simp add: shoelace_def)
next
  case (snoc ys l)
  have "shoelace (rev ring) = pathSum (last (l # rev ys)) (l # rev ys)"
    by (simp add: shoelace_def snoc)
  also have "\<dots> = pathSum l (rev ys @ [l])" by (rule pathSum_rotate)
  also have "\<dots> = - pathSum l (ys @ [l])" by (rule pathSum_rev)
  also have "pathSum l (ys @ [l]) = shoelace ring" by (simp add: shoelace_def snoc)
  finally show ?thesis .
qed

subsection \<open>\<open>signedArea\<close> computes the shoelace sum\<close>

lemma elemAt_pairs:
  assumes "k < length (pairsOf cs)"
  shows "elemAt cs (int k * 2) = Some (fst (pairsOf cs ! k))"
    and "elemAt cs (int k * 2 + 1) = Some (snd (pairsOf cs ! k))"
proof -
  from assms have k: "k < length cs div 2" by (simp add: length_pairsOf)
  then have b: "k * 2 + 1 < length cs" by linarith
  have n: "nat (int k * 2) = k * 2" "nat (int k * 2 + 1) = k * 2 + 1" by simp_all
  from b have "int k * 2 + 1 < int (length cs)" by linarith
  then show "elemAt cs (int k * 2) = Some (fst (pairsOf cs ! k))"
    and "elemAt cs (int k * 2 + 1) = Some (snd (pairsOf cs ! k))"
    using k n by (simp_all add: elemAt_def pairsOf_nth)
qed

text \<open>
  A whole number below \<open>2 ^ 53\<close> in absolute value is a double. With coordinates bounded by
  \<open>M\<close>, a term of the shoelace sum is bounded by \<open>4 * M * M\<close>; when the terms of a ring add
  up to less than \<open>2 ^ 53\<close>, no operation of the loop rounds.
\<close>

lemma roundDouble_exact: "\<bar>v\<bar> < 2 ^ 53 \<Longrightarrow> roundDouble v = v"
  by (simp add: roundDouble_def Let_def excessBits.simps [of "\<bar>v\<bar>"])

lemma term_bound:
  fixes x y px py M :: int
  assumes "\<bar>x\<bar> \<le> M" "\<bar>y\<bar> \<le> M" "\<bar>px\<bar> \<le> M" "\<bar>py\<bar> \<le> M"
  shows "\<bar>x - px\<bar> \<le> 4 * M * M" and "\<bar>y + py\<bar> \<le> 4 * M * M"
    and "\<bar>(x - px) * (y + py)\<bar> \<le> 4 * M * M"
proof -
  from assms have M: "0 \<le> M" by linarith
  from assms have d: "\<bar>x - px\<bar> \<le> 2 * M" and e: "\<bar>y + py\<bar> \<le> 2 * M" by linarith+
  have "2 * M \<le> (2 * M) * (2 * M)"
  proof (cases "M = 0")
    case True
    then show ?thesis by simp
  next
    case False
    with M have "1 \<le> 2 * M" by simp
    then have "(2 * M) * 1 \<le> (2 * M) * (2 * M)"
      using M by (intro mult_left_mono) simp_all
    then show ?thesis by simp
  qed
  then have two: "2 * M \<le> 4 * M * M" by simp
  from d two show "\<bar>x - px\<bar> \<le> 4 * M * M" by linarith
  from e two show "\<bar>y + py\<bar> \<le> 4 * M * M" by linarith
  have "\<bar>x - px\<bar> * \<bar>y + py\<bar> \<le> (2 * M) * (2 * M)"
    using d e M by (intro mult_mono) simp_all
  then show "\<bar>(x - px) * (y + py)\<bar> \<le> 4 * M * M"
    by (simp add: abs_mult)
qed

lemma signedAreaLoop_pathSum:
  assumes "a \<le> b" and "b \<le> length (pairsOf coords)" and "p < length (pairsOf coords)"
    and "boundedBy M (pairsOf coords)"
    and "\<bar>area\<bar> + int (b - a) * (4 * M * M) < 2 ^ 53"
  shows "signedAreaLoop coords (int b * 2) (int a * 2) (int p * 2) (Some area) =
    Some (area + pathSum (pairsOf coords ! p) (slice (pairsOf coords) a b))"
  using assms
proof (induction "b - a" arbitrary: a p area)
  case 0
  then have "a = b" by simp
  then show ?case by (subst signedAreaLoop.simps) simp
next
  case (Suc n)
  let ?ps = "pairsOf coords"
  let ?K = "4 * M * M"
  from Suc have ab: "a < b" and a: "a < length ?ps" by simp_all
  have n: "n = b - Suc a" using Suc.hyps(2) by simp
  have i2: "int a * 2 + 2 = int (Suc a) * 2" by simp
  obtain x y where xa: "?ps ! a = (x, y)" by (cases "?ps ! a")
  obtain px py where xp: "?ps ! p = (px, py)" by (cases "?ps ! p")
  from Suc.prems(4) a Suc.prems(3) xa xp
  have bd: "\<bar>x\<bar> \<le> M" "\<bar>y\<bar> \<le> M" "\<bar>px\<bar> \<le> M" "\<bar>py\<bar> \<le> M"
    by (auto simp: boundedBy_def)
  note tb = term_bound [OF bd]
  have K0: "0 \<le> ?K" by simp
  have split: "int (b - a) * ?K = ?K + int (b - Suc a) * ?K"
    using ab by (simp add: Suc_diff_Suc algebra_simps)
  from Suc.prems(5) have fit: "\<bar>area\<bar> + ?K + int (b - Suc a) * ?K < 2 ^ 53"
    unfolding split by simp
  have rest0: "0 \<le> int (b - Suc a) * ?K" by simp
  from fit rest0 have K53: "?K < 2 ^ 53" and aK: "\<bar>area\<bar> + ?K < 2 ^ 53" by linarith+
  have r1: "roundDouble (x - px) = x - px" using tb(1) K53 by (intro roundDouble_exact) linarith
  have r2: "roundDouble (y + py) = y + py" using tb(2) K53 by (intro roundDouble_exact) linarith
  have r3: "roundDouble ((x - px) * (y + py)) = (x - px) * (y + py)"
    using tb(3) K53 by (intro roundDouble_exact) linarith
  have r4: "roundDouble (area + (x - px) * (y + py)) = area + (x - px) * (y + py)"
    using tb(3) aK by (intro roundDouble_exact) linarith
  have fit': "\<bar>area + (x - px) * (y + py)\<bar> + int (b - Suc a) * ?K < 2 ^ 53"
    using fit tb(3) by linarith
  have IH: "signedAreaLoop coords (int b * 2) (int (Suc a) * 2) (int a * 2)
      (Some (area + (x - px) * (y + py))) =
    Some (area + (x - px) * (y + py) + pathSum (?ps ! a) (slice ?ps (Suc a) b))"
    using Suc.hyps(1) [OF n _ Suc.prems(2) a Suc.prems(4) fit'] ab by simp
  have sl: "slice ?ps a b = (x, y) # slice ?ps (Suc a) b"
    using slice_Cons [OF ab Suc.prems(2)] by (simp add: xa)
  show ?case
    using ab elemAt_pairs [OF a] elemAt_pairs [OF Suc.prems(3)] IH
    by (subst signedAreaLoop.simps)
       (simp add: i2 xa xp sl num_add_def num_mul_def num_sub_def r1 r2 r3 r4 del: of_nat_Suc)
qed

lemma signedArea_shoelace:
  assumes "a \<le> b" and "b \<le> length (pairsOf coords)"
    and "boundedBy M (pairsOf coords)"
    and "int (b - a) * (4 * M * M) < 2 ^ 53"
  shows "signedArea coords (int a * 2) (int b * 2) = Some (shoelace (slice (pairsOf coords) a b))"
proof (cases "a = b")
  case True
  then show ?thesis
    by (simp add: signedArea_def shoelace_def) (subst signedAreaLoop.simps, simp)
next
  case False
  with assms have ab: "a < b" by simp
  then have p: "b - 1 < length (pairsOf coords)" using assms by simp
  have j: "int b * 2 - 2 = int (b - 1) * 2" using ab by (simp add: of_nat_diff)
  have ne: "slice (pairsOf coords) a b \<noteq> []" using ab assms by (simp add: slice_def)
  from signedAreaLoop_pathSum [OF assms(1,2) p assms(3), of 0] assms(4) show ?thesis
    by (simp add: signedArea_def j shoelace_def ne slice_last [OF ab assms(2)])
qed

subsection \<open>\<open>reverseRing\<close> reverses the vertices of the ring\<close>

lemma length_setElem [simp]: "length (setElem cs i v) = length cs"
  by (simp add: setElem_def)

lemma length_swapPairs [simp]: "length (swapPairs cs li ri) = length cs"
  by (simp add: swapPairs_def Let_def)

lemma swapPairs_updates:
  assumes "a * 2 + 1 < length cs" and "b * 2 + 1 < length cs"
  shows "swapPairs cs (int a * 2) (int b * 2) =
    cs[a * 2 := cs ! (b * 2), a * 2 + 1 := (cs[a * 2 := cs ! (b * 2)]) ! (b * 2 + 1),
       b * 2 := cs ! (a * 2), b * 2 + 1 := cs ! (a * 2 + 1)]"
proof -
  have n: "nat (int a * 2) = a * 2" "nat (int a * 2 + 1) = a * 2 + 1"
    "nat (int b * 2) = b * 2" "nat (int b * 2 + 1) = b * 2 + 1" by simp_all
  have r: "int a * 2 < int (length cs)" "int a * 2 + 1 < int (length cs)"
    "int b * 2 < int (length cs)" "int b * 2 + 1 < int (length cs)"
    using assms by linarith+
  show ?thesis
    unfolding swapPairs_def Let_def elemAt_def setElem_def
    using r by (simp add: n del: of_nat_mult of_nat_add)
qed

lemma swapPairs_pairs:
  assumes a: "a < length (pairsOf cs)" and b: "b < length (pairsOf cs)"
  shows "pairsOf (swapPairs cs (int a * 2) (int b * 2)) =
    (pairsOf cs)[a := pairsOf cs ! b, b := pairsOf cs ! a]"
proof (rule nth_equalityI)
  show "length (pairsOf (swapPairs cs (int a * 2) (int b * 2))) =
      length ((pairsOf cs)[a := pairsOf cs ! b, b := pairsOf cs ! a])"
    by (simp add: length_pairsOf)
next
  fix k assume "k < length (pairsOf (swapPairs cs (int a * 2) (int b * 2)))"
  then have k: "k < length cs div 2" by (simp add: length_pairsOf)
  from a b have a': "a < length cs div 2" and b': "b < length cs div 2"
    by (simp_all add: length_pairsOf)
  then have ra: "a * 2 + 1 < length cs" and rb: "b * 2 + 1 < length cs" by linarith+
  from k have rk: "k * 2 + 1 < length cs" by linarith
  have x: "pairsOf (swapPairs cs (int a * 2) (int b * 2)) ! k =
      (swapPairs cs (int a * 2) (int b * 2) ! (k * 2),
       swapPairs cs (int a * 2) (int b * 2) ! (k * 2 + 1))"
    using k by (intro pairsOf_nth) simp
  have p: "pairsOf cs ! k = (cs ! (k * 2), cs ! (k * 2 + 1))"
    "pairsOf cs ! a = (cs ! (a * 2), cs ! (a * 2 + 1))"
    "pairsOf cs ! b = (cs ! (b * 2), cs ! (b * 2 + 1))"
    using k a' b' by (simp_all add: pairsOf_nth)
  have par: "\<And>u v::nat. u * 2 \<noteq> v * 2 + 1" by presburger
  show "pairsOf (swapPairs cs (int a * 2) (int b * 2)) ! k =
      (pairsOf cs)[a := pairsOf cs ! b, b := pairsOf cs ! a] ! k"
    unfolding x
    unfolding swapPairs_updates [OF ra rb]
    using ra rb rk a b k par [of a b] par [of b a] par [of k a] par [of a k]
      par [of k b] par [of b k]
    by (simp add: nth_list_update p length_pairsOf)
qed

lemma partlyReversed_start: "partlyReversed ps a b 0 ps"
  by (auto simp: partlyReversed_def)

lemma partlyReversed_step:
  assumes inv: "partlyReversed ps a b t qs" and t: "2 * t < b - a" and b: "b \<le> length ps"
  shows "partlyReversed ps a b (Suc t) (qs[a + t := qs ! (b - 1 - t), b - 1 - t := qs ! (a + t)])"
proof -
  from inv have len: "length qs = length ps"
    and nth: "\<And>k. k < length ps \<Longrightarrow> qs ! k =
        (if a \<le> k \<and> k < b \<and> (k < a + t \<or> b \<le> k + t) then ps ! (a + b - 1 - k) else ps ! k)"
    by (simp_all add: partlyReversed_def)
  from t b have r: "a + t < length ps" "b - 1 - t < length ps" "a + t \<le> b - 1 - t"
    by linarith+
  from t have lt: "a + t < b" "b - 1 - t < b" "a \<le> b - 1 - t" by linarith+
  have l: "qs ! (a + t) = ps ! (a + t)" using nth [OF r(1)] t by auto
  have h: "qs ! (b - 1 - t) = ps ! (b - 1 - t)" using nth [OF r(2)] t by auto
  show ?thesis
    unfolding partlyReversed_def
  proof (intro conjI allI impI)
    show "length (qs[a + t := qs ! (b - 1 - t), b - 1 - t := qs ! (a + t)]) = length ps"
      by (simp add: len)
  next
    fix k assume k: "k < length ps"
    consider "k = a + t" | "k = b - 1 - t" "k \<noteq> a + t" | "k \<noteq> a + t" "k \<noteq> b - 1 - t"
      by blast
    then show "qs[a + t := qs ! (b - 1 - t), b - 1 - t := qs ! (a + t)] ! k =
        (if a \<le> k \<and> k < b \<and> (k < a + Suc t \<or> b \<le> k + Suc t)
         then ps ! (a + b - 1 - k) else ps ! k)"
    proof cases
      case 1
      have m: "a + b - 1 - (a + t) = b - 1 - t" by simp
      show ?thesis
      proof (cases "a + t = b - 1 - t")
        case True
        with 1 r lt len l show ?thesis by (simp add: m)
      next
        case False
        with 1 r lt len h show ?thesis by (simp add: m)
      qed
    next
      case 2
      have m: "a + b - 1 - (b - 1 - t) = a + t" using r t by linarith
      from 2 r lt len l show ?thesis by (simp add: m)
    next
      case 3
      have "qs[a + t := qs ! (b - 1 - t), b - 1 - t := qs ! (a + t)] ! k = qs ! k"
        using 3 by simp
      also have "\<dots> = (if a \<le> k \<and> k < b \<and> (k < a + t \<or> b \<le> k + t)
          then ps ! (a + b - 1 - k) else ps ! k)"
        by (rule nth [OF k])
      also have "(a \<le> k \<and> k < b \<and> (k < a + t \<or> b \<le> k + t)) \<longleftrightarrow>
          (a \<le> k \<and> k < b \<and> (k < a + Suc t \<or> b \<le> k + Suc t))"
        using 3 by auto
      finally show ?thesis .
    qed
  qed
qed

lemma partlyReversed_done:
  assumes "partlyReversed ps a b t qs" and "b - a \<le> 2 * t"
  shows "partlyReversed ps a b (b - a) qs"
proof -
  have "\<And>k. a \<le> k \<and> k < b \<and> (k < a + t \<or> b \<le> k + t) \<longleftrightarrow>
      a \<le> k \<and> k < b \<and> (k < a + (b - a) \<or> b \<le> k + (b - a))"
    using assms(2) by auto
  with assms(1) show ?thesis by (simp add: partlyReversed_def)
qed

lemma reverseLoop_partlyReversed:
  assumes "partlyReversed (pairsOf coords) a b t (pairsOf C)"
    and "length C = length coords" and "b \<le> length (pairsOf coords)"
  shows "partlyReversed (pairsOf coords) a b (b - a)
           (pairsOf (reverseLoop C (int a * 2) (int b * 2) (int (b - a)) (int t * 2))) \<and>
         length (reverseLoop C (int a * 2) (int b * 2) (int (b - a)) (int t * 2)) = length coords"
  using assms
proof (induction "b - a - 2 * t" arbitrary: t C rule: less_induct)
  case less
  let ?ps = "pairsOf coords"
  show ?case
  proof (cases "2 * t < b - a")
    case True
    define C' where "C' = swapPairs C (int a * 2 + int t * 2) (int b * 2 - 2 - int t * 2)"
    from True less.prems(3) have r: "a + t < length ?ps" "b - 1 - t < length ?ps" by linarith+
    have lp: "length (pairsOf C) = length ?ps"
      using less.prems(1) by (simp add: partlyReversed_def)
    have i1: "int a * 2 + int t * 2 = int (a + t) * 2" by simp
    have i2: "int b * 2 - 2 - int t * 2 = int (b - 1 - t) * 2"
      using True by (simp add: of_nat_diff algebra_simps)
    have "pairsOf C' = (pairsOf C)[a + t := pairsOf C ! (b - 1 - t), b - 1 - t := pairsOf C ! (a + t)]"
      unfolding C'_def i1 i2 using r by (intro swapPairs_pairs) (simp_all add: lp)
    with partlyReversed_step [OF less.prems(1) True less.prems(3)]
    have inv': "partlyReversed ?ps a b (Suc t) (pairsOf C')" by simp
    have len': "length C' = length coords" by (simp add: C'_def less.prems(2))
    have dec: "b - a - 2 * Suc t < b - a - 2 * t" using True by simp
    have c: "int t * 2 < int (b - a)" using True by linarith
    have i3: "int t * 2 + 2 = int (Suc t) * 2" by simp
    have step: "reverseLoop C (int a * 2) (int b * 2) (int (b - a)) (int t * 2) =
        reverseLoop C' (int a * 2) (int b * 2) (int (b - a)) (int (Suc t) * 2)"
      by (subst reverseLoop.simps) (simp only: c if_True C'_def i3)
    from less.hyps [OF dec inv' len' less.prems(3)] show ?thesis
      unfolding step .
  next
    case False
    then have "\<not> int t * 2 < int (b - a)" by linarith
    then have "reverseLoop C (int a * 2) (int b * 2) (int (b - a)) (int t * 2) = C"
      by (subst reverseLoop.simps) (simp only: if_False)
    moreover from False have "b - a \<le> 2 * t" by simp
    note partlyReversed_done [OF less.prems(1) this]
    ultimately show ?thesis using less.prems(2) by simp
  qed
qed

lemma truncHalf_even:
  assumes "n < 2 ^ 31"
  shows "truncHalf (int n * 2) = int n"
proof -
  have q: "sgn (int n * 2) * (\<bar>int n * 2\<bar> div 2) = int n"
    by (cases "n = 0") simp_all
  have "toInt32 (int n) = int n"
    using assms by (simp add: toInt32_def)
  then show ?thesis unfolding truncHalf_def q .
qed

lemma reverseRing_partlyReversed:
  assumes ab: "a \<le> b" and b: "b \<le> length (pairsOf coords)" and len: "length coords < 2 ^ 32"
  shows "partlyReversed (pairsOf coords) a b (b - a) (pairsOf (reverseRing coords (int a * 2) (int b * 2)))"
    and "length (reverseRing coords (int a * 2) (int b * 2)) = length coords"
proof -
  have "length (pairsOf coords) < 2 ^ 31"
    using len by (simp add: length_pairsOf)
  with b have "b - a < 2 ^ 31" by linarith
  then have h: "truncHalf (int (b - a) * 2) = int (b - a)" by (rule truncHalf_even)
  have d: "int b * 2 - int a * 2 = int (b - a) * 2"
    using ab by (simp add: of_nat_diff algebra_simps)
  have z: "(0::int) = int 0 * 2" by simp
  have eq: "reverseRing coords (int a * 2) (int b * 2) =
      reverseLoop coords (int a * 2) (int b * 2) (int (b - a)) (int 0 * 2)"
    unfolding reverseRing_def d h by simp
  from reverseLoop_partlyReversed [OF partlyReversed_start refl b, of a]
  show "partlyReversed (pairsOf coords) a b (b - a) (pairsOf (reverseRing coords (int a * 2) (int b * 2)))"
    and "length (reverseRing coords (int a * 2) (int b * 2)) = length coords"
    unfolding eq by simp_all
qed

lemma partlyReversed_ring:
  assumes inv: "partlyReversed ps a b (b - a) qs" and ab: "a \<le> b" and b: "b \<le> length ps"
  shows "slice qs a b = rev (slice ps a b)"
proof (rule nth_equalityI)
  from inv have len: "length qs = length ps" by (simp add: partlyReversed_def)
  show "length (slice qs a b) = length (rev (slice ps a b))"
    using b len by (simp add: length_slice)
  fix k assume "k < length (slice qs a b)"
  then have k: "k < b - a" using b len by (simp add: length_slice)
  then have r: "a + k < length ps" "a + k < b" using b by linarith+
  have m: "a + b - 1 - (a + k) = a + (b - a - 1 - k)" using k by linarith
  have "slice qs a b ! k = qs ! (a + k)"
    using b len k by (simp add: slice_nth)
  also have "\<dots> = ps ! (a + b - 1 - (a + k))"
    using inv r by (simp add: partlyReversed_def)
  also have "\<dots> = slice ps a b ! (b - a - 1 - k)"
    unfolding m using b k by (simp add: slice_nth)
  also have "\<dots> = rev (slice ps a b) ! k"
    using k b by (simp add: rev_nth length_slice) 
  finally show "slice qs a b ! k = rev (slice ps a b) ! k" .
qed

lemma partlyReversed_frame:
  assumes inv: "partlyReversed ps a b (b - a) qs"
    and cd: "c \<le> d" "d \<le> length ps" and out: "d \<le> a \<or> b \<le> c"
  shows "slice qs c d = slice ps c d"
proof (rule nth_equalityI)
  from inv have len: "length qs = length ps" by (simp add: partlyReversed_def)
  show "length (slice qs c d) = length (slice ps c d)"
    using cd len by (simp add: length_slice)
  fix k assume "k < length (slice qs c d)"
  then have k: "k < d - c" using cd len by (simp add: length_slice)
  then have r: "c + k < length ps" "c + k < d" using cd by linarith+
  with out have o: "\<not> (a \<le> c + k \<and> c + k < b)" by linarith
  have "slice qs c d ! k = qs ! (c + k)"
    using cd len k by (simp add: slice_nth)
  also have "\<dots> = ps ! (c + k)"
    using inv r o by (auto simp: partlyReversed_def)
  also have "\<dots> = slice ps c d ! k"
    using cd k by (simp add: slice_nth)
  finally show "slice qs c d ! k = slice ps c d ! k" .
qed

lemma partlyReversed_boundedBy:
  assumes inv: "partlyReversed ps a b (b - a) qs" and ab: "a \<le> b" and b: "b \<le> length ps"
    and bd: "boundedBy M ps"
  shows "boundedBy M qs"
  unfolding boundedBy_def
proof (intro allI impI)
  from inv have len: "length qs = length ps" by (simp add: partlyReversed_def)
  fix k assume "k < length qs"
  then have k: "k < length ps" using len by simp
  show "\<bar>fst (qs ! k)\<bar> \<le> M \<and> \<bar>snd (qs ! k)\<bar> \<le> M"
  proof (cases "a \<le> k \<and> k < b")
    case True
    then have m: "a + b - 1 - k < length ps" using b by linarith
    from True have "a \<le> k \<and> k < b \<and> (k < a + (b - a) \<or> b \<le> k + (b - a))" by linarith
    with inv k have "qs ! k = ps ! (a + b - 1 - k)" by (simp add: partlyReversed_def)
    with bd m show ?thesis by (simp add: boundedBy_def)
  next
    case False
    with inv k have "qs ! k = ps ! k" by (auto simp: partlyReversed_def)
    with bd k show ?thesis by (simp add: boundedBy_def)
  qed
qed

lemma ring_fits:
  assumes "b \<le> n" and "int n * (4 * M * M) < 2 ^ 53"
  shows "int (b - a) * (4 * M * M) < 2 ^ 53"
proof -
  have "int (b - a) * (4 * M * M) \<le> int n * (4 * M * M)"
    using assms(1) by (intro mult_right_mono) simp_all
  with assms(2) show ?thesis by linarith
qed

lemma ensureWinding_ring:
  assumes ab: "a \<le> b" and b: "b \<le> length (pairsOf coords)" and len: "length coords < 2 ^ 32"
    and bd: "boundedBy M (pairsOf coords)"
    and fit: "int (length (pairsOf coords)) * (4 * M * M) < 2 ^ 53"
  shows "length (ensureWinding coords (int a * 2) (int b * 2) cw) = length coords"
    and "shoelace (slice (pairsOf (ensureWinding coords (int a * 2) (int b * 2) cw)) a b) =
      (if cw then \<bar>shoelace (slice (pairsOf coords) a b)\<bar>
       else - \<bar>shoelace (slice (pairsOf coords) a b)\<bar>)"
    and "\<And>c d. c \<le> d \<Longrightarrow> d \<le> length (pairsOf coords) \<Longrightarrow> d \<le> a \<or> b \<le> c \<Longrightarrow>
      slice (pairsOf (ensureWinding coords (int a * 2) (int b * 2) cw)) c d =
      slice (pairsOf coords) c d"
    and "boundedBy M (pairsOf (ensureWinding coords (int a * 2) (int b * 2) cw))"
proof -
  let ?A = "shoelace (slice (pairsOf coords) a b)"
  have area: "signedArea coords (int a * 2) (int b * 2) = Some ?A"
    using ab b bd ring_fits [OF b fit] by (rule signedArea_shoelace)
  note rev = reverseRing_partlyReversed [OF ab b len]
  show "length (ensureWinding coords (int a * 2) (int b * 2) cw) = length coords"
    by (simp add: ensureWinding_def Let_def rev(2))
  show "shoelace (slice (pairsOf (ensureWinding coords (int a * 2) (int b * 2) cw)) a b) =
      (if cw then \<bar>?A\<bar> else - \<bar>?A\<bar>)"
  proof (cases "(0 < ?A) \<noteq> cw")
    case True
    then have "ensureWinding coords (int a * 2) (int b * 2) cw =
        reverseRing coords (int a * 2) (int b * 2)"
      by (simp add: ensureWinding_def Let_def area js_gt0_def)
    with True partlyReversed_ring [OF rev(1) ab b] show ?thesis
      by (auto simp: shoelace_rev)
  next
    case False
    then have "ensureWinding coords (int a * 2) (int b * 2) cw = coords"
      by (simp add: ensureWinding_def Let_def area js_gt0_def)
    with False show ?thesis by auto
  qed
  fix c d assume cd: "c \<le> d" "d \<le> length (pairsOf coords)" "d \<le> a \<or> b \<le> c"
  show "slice (pairsOf (ensureWinding coords (int a * 2) (int b * 2) cw)) c d =
      slice (pairsOf coords) c d"
    using partlyReversed_frame [OF rev(1) cd]
    by (simp add: ensureWinding_def Let_def)
next
  let ?A = "shoelace (slice (pairsOf coords) a b)"
  note rev = reverseRing_partlyReversed [OF ab b len]
  show "boundedBy M (pairsOf (ensureWinding coords (int a * 2) (int b * 2) cw))"
    using partlyReversed_boundedBy [OF rev(1) ab b bd] bd
    by (simp add: ensureWinding_def Let_def)
qed

lemma windingLoop_rings:
  assumes "sorted (start # es)" and "\<forall>e \<in> set es. e \<le> length (pairsOf coords)"
    and "length coords < 2 ^ 32"
    and "boundedBy M (pairsOf coords)"
    and "int (length (pairsOf coords)) * (4 * M * M) < 2 ^ 53"
  shows "length (windingLoop ext coords (int start * 2) i es) = length coords \<and>
    (\<forall>m < length es.
       shoelace (slice (pairsOf (windingLoop ext coords (int start * 2) i es))
                  (if m = 0 then start else es ! (m - 1)) (es ! m)) =
       (if i + m \<in> ext
        then \<bar>shoelace (slice (pairsOf coords) (if m = 0 then start else es ! (m - 1)) (es ! m))\<bar>
        else - \<bar>shoelace (slice (pairsOf coords) (if m = 0 then start else es ! (m - 1)) (es ! m))\<bar>)) \<and>
    (\<forall>c d. c \<le> d \<and> d \<le> start \<longrightarrow>
       slice (pairsOf (windingLoop ext coords (int start * 2) i es)) c d =
       slice (pairsOf coords) c d)"
  using assms
proof (induction es arbitrary: coords start i)
  case Nil
  then show ?case by simp
next
  case (Cons e es)
  let ?ps = "pairsOf coords"
  define coords1 where "coords1 = ensureWinding coords (int start * 2) (int e * 2) (i \<in> ext)"
  define R where "R = windingLoop ext coords1 (int e * 2) (i + 1) es"
  from Cons.prems have se: "start \<le> e" and so: "sorted (e # es)"
    and le: "e \<le> length ?ps" and les: "\<forall>e \<in> set es. e \<le> length ?ps"
    by simp_all
  note ew = ensureWinding_ring [OF se le Cons.prems(3,4,5), where cw = "i \<in> ext",
      folded coords1_def]
  have lp: "length (pairsOf coords1) = length ?ps"
    by (simp add: length_pairsOf ew(1))
  have les1: "\<forall>e \<in> set es. e \<le> length (pairsOf coords1)" using les lp by simp
  have len1: "length coords1 < 2 ^ 32" using Cons.prems(3) ew(1) by simp
  have fit1: "int (length (pairsOf coords1)) * (4 * M * M) < 2 ^ 53"
    using Cons.prems(5) lp by simp
  from Cons.IH [OF so les1 len1 ew(4) fit1, where i = "i + 1", folded R_def]
  have IH1: "length R = length coords1"
    and IH2: "\<And>m. m < length es \<Longrightarrow>
       shoelace (slice (pairsOf R) (if m = 0 then e else es ! (m - 1)) (es ! m)) =
       (if i + 1 + m \<in> ext
        then \<bar>shoelace (slice (pairsOf coords1) (if m = 0 then e else es ! (m - 1)) (es ! m))\<bar>
        else - \<bar>shoelace (slice (pairsOf coords1) (if m = 0 then e else es ! (m - 1)) (es ! m))\<bar>)"
    and IH3: "\<And>c d. c \<le> d \<Longrightarrow> d \<le> e \<Longrightarrow> slice (pairsOf R) c d = slice (pairsOf coords1) c d"
    by blast+
  have unfold: "windingLoop ext coords (int start * 2) i (e # es) = R"
    by (simp add: R_def coords1_def Let_def)
  have 1: "length R = length coords" using IH1 ew(1) by simp
  have 2: "\<forall>m < length (e # es).
       shoelace (slice (pairsOf R) (if m = 0 then start else (e # es) ! (m - 1)) ((e # es) ! m)) =
       (if i + m \<in> ext
        then \<bar>shoelace (slice ?ps (if m = 0 then start else (e # es) ! (m - 1)) ((e # es) ! m))\<bar>
        else - \<bar>shoelace (slice ?ps (if m = 0 then start else (e # es) ! (m - 1)) ((e # es) ! m))\<bar>)"
  proof (intro allI impI)
    fix m assume m: "m < length (e # es)"
    show "shoelace (slice (pairsOf R) (if m = 0 then start else (e # es) ! (m - 1)) ((e # es) ! m)) =
       (if i + m \<in> ext
        then \<bar>shoelace (slice ?ps (if m = 0 then start else (e # es) ! (m - 1)) ((e # es) ! m))\<bar>
        else - \<bar>shoelace (slice ?ps (if m = 0 then start else (e # es) ! (m - 1)) ((e # es) ! m))\<bar>)"
    proof (cases m)
      case 0
      have "slice (pairsOf R) start e = slice (pairsOf coords1) start e"
        using se by (intro IH3) simp_all
      with ew(2) 0 show ?thesis by simp
    next
      case (Suc m')
      with m have m': "m' < length es" by simp
      define c where "c = (if m' = 0 then e else es ! (m' - 1))"
      define d where "d = es ! m'"
      have d_in: "d \<in> set es" using m' by (simp add: d_def)
      then have dle: "d \<le> length ?ps" using les by blast
      have ec: "e \<le> c"
      proof (cases "m' = 0")
        case True
        then show ?thesis by (simp add: c_def)
      next
        case False
        then have "es ! (m' - 1) \<in> set es" using m' by simp
        with so False show ?thesis by (simp add: c_def)
      qed
      have cd: "c \<le> d"
      proof (cases "m' = 0")
        case True
        with so d_in show ?thesis by (simp add: c_def)
      next
        case False
        from so have "sorted es" by simp
        moreover have "m' - 1 \<le> m'" by simp
        ultimately have "es ! (m' - 1) \<le> es ! m'" using m' by (rule sorted_nth_mono)
        with False show ?thesis by (simp add: c_def d_def)
      qed
      have fr: "slice (pairsOf coords1) c d = slice ?ps c d"
        using cd dle ec by (intro ew(3)) simp_all
      have b: "(if m = 0 then start else (e # es) ! (m - 1)) = c" "(e # es) ! m = d"
        using Suc by (simp_all add: c_def d_def nth_Cons')
      have i: "i + m = i + 1 + m'" using Suc by simp
      from IH2 [OF m'] show ?thesis
        unfolding b i c_def [symmetric] d_def [symmetric] fr .
    qed
  qed
  have 3: "\<forall>c d. c \<le> d \<and> d \<le> start \<longrightarrow> slice (pairsOf R) c d = slice ?ps c d"
  proof (intro allI impI)
    fix c d assume cd: "c \<le> d \<and> d \<le> start"
    then have "slice (pairsOf R) c d = slice (pairsOf coords1) c d"
      using se by (intro IH3) simp_all
    also have "\<dots> = slice ?ps c d"
      using cd se le by (intro ew(3)) simp_all
    finally show "slice (pairsOf R) c d = slice ?ps c d" .
  qed
  from 1 2 3 show ?case unfolding unfold by blast
qed

lemma boundedBy_pairsOf:
  assumes "\<forall>c \<in> set coords. \<bar>c\<bar> \<le> M"
  shows "boundedBy M (pairsOf coords)"
  unfolding boundedBy_def
proof (intro allI impI)
  fix k assume k: "k < length (pairsOf coords)"
  then have "k < length coords div 2" by (simp add: length_pairsOf)
  then have "k * 2 < length coords" "k * 2 + 1 < length coords" by linarith+
  then have "coords ! (k * 2) \<in> set coords" "coords ! (k * 2 + 1) \<in> set coords"
    by simp_all
  with assms have "\<bar>coords ! (k * 2)\<bar> \<le> M" "\<bar>coords ! (k * 2 + 1)\<bar> \<le> M" by blast+
  moreover have "pairsOf coords ! k = (coords ! (k * 2), coords ! (k * 2 + 1))"
    using \<open>k < length coords div 2\<close> by (simp add: pairsOf_nth)
  ultimately show "\<bar>fst (pairsOf coords ! k)\<bar> \<le> M \<and> \<bar>snd (pairsOf coords ! k)\<bar> \<le> M"
    by simp
qed

lemma pairs_fit:
  assumes "int (length coords) * (2 * M * M) < 2 ^ 53"
  shows "int (length (pairsOf coords)) * (4 * M * M) < 2 ^ 53"
proof -
  have "int (length coords div 2) * 2 \<le> int (length coords)" by simp
  then have "int (length coords div 2) * 2 * (2 * M * M) \<le> int (length coords) * (2 * M * M)"
    by (intro mult_right_mono) simp_all
  with assms show ?thesis by (simp add: length_pairsOf algebra_simps)
qed

lemma correctWinding_multi:
  assumes len: "length coords < 2 ^ 32"
    and wf: "wellFormedEnds (length coords div 2) (Some es)"
    and poly: "geomType = GT_Polygon \<or> geomType = GT_MultiPolygon"
    and multi: "1 < length es" and i: "i < length es"
    and bd: "\<forall>c \<in> set coords. \<bar>c\<bar> \<le> M"
    and fit: "int (length coords) * (2 * M * M) < 2 ^ 53"
  shows "shoelace (ringAt (correctWinding coords (Some es) geomType parts) es i) =
    (if i \<in> exteriorRings parts then \<bar>shoelace (ringAt coords es i)\<bar>
     else - \<bar>shoelace (ringAt coords es i)\<bar>)"
proof -
  from wf have so: "sorted (0 # es)" and le: "\<forall>e \<in> set es. e \<le> length (pairsOf coords)"
    by (simp_all add: wellFormedEnds_def length_pairsOf)
  have cw: "correctWinding coords (Some es) geomType parts =
      windingLoop (exteriorRings parts) coords (int 0 * 2) 0 es"
    using poly multi
    by (auto simp: correctWinding_def exteriorRings_def GT_Polygon_def GT_MultiPolygon_def
        split: option.splits)
  from windingLoop_rings [OF so le len boundedBy_pairsOf [OF bd] pairs_fit [OF fit],
      of "exteriorRings parts" 0] i
  show ?thesis
    unfolding cw ringAt_def ringStart_def by simp
qed

lemma correctWinding_single:
  assumes ev: "even (length coords)" and len: "length coords < 2 ^ 32"
    and poly: "geomType = GT_Polygon \<or> geomType = GT_MultiPolygon"
    and single: "ends = None \<or> (\<exists>es. ends = Some es \<and> length es \<le> 1)"
    and bd: "\<forall>c \<in> set coords. \<bar>c\<bar> \<le> M"
    and fit: "int (length coords) * (2 * M * M) < 2 ^ 53"
  shows "shoelace (pairsOf (correctWinding coords ends geomType parts)) = \<bar>shoelace (pairsOf coords)\<bar>"
proof -
  let ?n = "length (pairsOf coords)"
  have n: "int (length coords) = int ?n * 2"
    using ev by (auto simp: length_pairsOf elim: evenE)
  define E where "E = ensureWinding coords (int 0 * 2) (int ?n * 2) True"
  have cw: "correctWinding coords ends geomType parts = E"
    using poly single
    by (auto simp: E_def correctWinding_def n GT_Polygon_def GT_MultiPolygon_def
        split: option.splits)
  note bp = boundedBy_pairsOf [OF bd] and pf = pairs_fit [OF fit]
  have l: "length (pairsOf E) = ?n"
    using ensureWinding_ring(1) [of 0 ?n coords M True] len bp pf
    by (simp add: length_pairsOf E_def)
  have s: "\<And>qs::(int \<times> int) list. slice qs 0 (length qs) = qs" by (simp add: slice_def)
  from ensureWinding_ring(2) [of 0 ?n coords M True] len bp pf
  have "shoelace (slice (pairsOf E) 0 ?n) = \<bar>shoelace (slice (pairsOf coords) 0 ?n)\<bar>"
    by (simp add: E_def)
  then show ?thesis
    unfolding cw using s [of "pairsOf coords"] s [of "pairsOf E"]
    by (simp add: l)
qed

text \<open>
  C5, as amended.  After \<open>correctWinding\<close> on a Polygon or MultiPolygon (a flat array of
  whole pairs, \<open>ends\<close> well-formed) whose coordinates are at most \<open>M\<close> in absolute value,
  with \<open>length coords * 2 * M * M < 2 ^ 53\<close> so that the sum of a ring is computed without
  rounding, every ring designated exterior has the shoelace sum \<open>\<bar>s\<bar>\<close> and every other
  ring the sum \<open>- \<bar>s\<bar>\<close>, where \<open>s\<close> is the sum of the ring before: non-negative for exterior
  and non-positive for interior rings, and strictly so exactly when the ring is not
  degenerate (\<open>s \<noteq> 0\<close>).  Without \<open>ends\<close>, or with at most one entry in it, the whole array
  is one exterior ring.
\<close>

theorem correctWinding_signs:
  assumes "even (length coords)" and "length coords < 2 ^ 32"
    and "wellFormedEnds (length coords div 2) ends"
    and "geomType = GT_Polygon \<or> geomType = GT_MultiPolygon"
    and "\<forall>c \<in> set coords. \<bar>c\<bar> \<le> M"
    and "int (length coords) * (2 * M * M) < 2 ^ 53"
  shows "(\<forall>es. ends = Some es \<and> 1 < length es \<longrightarrow>
            (\<forall>i < length es.
               shoelace (ringAt (correctWinding coords ends geomType parts) es i) =
               (if i \<in> exteriorRings parts then \<bar>shoelace (ringAt coords es i)\<bar>
                else - \<bar>shoelace (ringAt coords es i)\<bar>))) \<and>
         (ends = None \<or> (\<exists>es. ends = Some es \<and> length es \<le> 1) \<longrightarrow>
            shoelace (pairsOf (correctWinding coords ends geomType parts)) =
            \<bar>shoelace (pairsOf coords)\<bar>)"
proof (intro conjI allI impI)
  fix es i assume "ends = Some es \<and> 1 < length es" and "i < length es"
  with assms correctWinding_multi [of coords es geomType i M parts]
  show "shoelace (ringAt (correctWinding coords ends geomType parts) es i) =
               (if i \<in> exteriorRings parts then \<bar>shoelace (ringAt coords es i)\<bar>
                else - \<bar>shoelace (ringAt coords es i)\<bar>)"
    by simp
next
  assume "ends = None \<or> (\<exists>es. ends = Some es \<and> length es \<le> 1)"
  from correctWinding_single [OF assms(1,2,4) this assms(5,6)]
  show "shoelace (pairsOf (correctWinding coords ends geomType parts)) =
            \<bar>shoelace (pairsOf coords)\<bar>" .
qed

lemma squareWithHole_sums:
  "shoelace (ringAt squareWithHole [4, 8] 0) = -20000"
  "shoelace (ringAt squareWithHole [4, 8] 1) = -7200"
  by (simp_all add: squareWithHole_def ringAt_def ringStart_def slice_def shoelace_def)

theorem correctWinding_signs_witness:
  "even (length squareWithHole) \<and> length squareWithHole < 2 ^ 32 \<and>
   wellFormedEnds (length squareWithHole div 2) (Some [4, 8]) \<and>
   (GT_Polygon = GT_Polygon \<or> GT_Polygon = GT_MultiPolygon) \<and>
   list_all (\<lambda>c. \<bar>c\<bar> \<le> 100) squareWithHole \<and>
   int (length squareWithHole) * (2 * 100 * 100) < 2 ^ 53 \<and>
   shoelace (ringAt (correctWinding squareWithHole (Some [4, 8]) GT_Polygon None) [4, 8] 0) = 20000 \<and>
   shoelace (ringAt (correctWinding squareWithHole (Some [4, 8]) GT_Polygon None) [4, 8] 1) = -7200"
proof -
  have h1: "even (length squareWithHole)" by (simp add: squareWithHole_def)
  have h2: "length squareWithHole < 2 ^ 32" by (simp add: squareWithHole_def)
  have h3: "wellFormedEnds (length squareWithHole div 2) (Some [4, 8])"
    by (simp add: squareWithHole_def wellFormedEnds_def)
  have h4: "GT_Polygon = GT_Polygon \<or> GT_Polygon = GT_MultiPolygon" by simp
  have h5: "\<forall>c \<in> set squareWithHole. \<bar>c\<bar> \<le> 100" by (simp add: squareWithHole_def)
  have h6: "int (length squareWithHole) * (2 * 100 * 100) < 2 ^ 53"
    by (simp add: squareWithHole_def)
  from correctWinding_signs [OF h1 h2 h3 h4 h5 h6, of None]
  have "\<forall>i < length [4, 8::nat].
      shoelace (ringAt (correctWinding squareWithHole (Some [4, 8]) GT_Polygon None) [4, 8] i) =
      (if i \<in> exteriorRings None then \<bar>shoelace (ringAt squareWithHole [4, 8] i)\<bar>
       else - \<bar>shoelace (ringAt squareWithHole [4, 8] i)\<bar>)"
    by simp
  then have
    "shoelace (ringAt (correctWinding squareWithHole (Some [4, 8]) GT_Polygon None) [4, 8] 0) = 20000"
    "shoelace (ringAt (correctWinding squareWithHole (Some [4, 8]) GT_Polygon None) [4, 8] 1) = -7200"
    using squareWithHole_sums by (simp_all add: exteriorRings_def)
  with h1 h2 h3 h4 h5 h6 show ?thesis by (simp add: list_all_iff)
qed

text \<open>
  The claim as stated asks for a strictly positive sum on every exterior ring.  The ring
  of three collinear vertices has the sum 0 before and after the correction.
\<close>

theorem correctWinding_degenerate_counterexample:
  "\<not> 0 < shoelace (pairsOf (correctWinding collinearRing None GT_Polygon None))"
proof -
  have h1: "even (length collinearRing)" by (simp add: collinearRing_def)
  have h2: "length collinearRing < 2 ^ 32" by (simp add: collinearRing_def)
  have h5: "\<forall>c \<in> set collinearRing. \<bar>c\<bar> \<le> 2" by (simp add: collinearRing_def)
  have h6: "int (length collinearRing) * (2 * 2 * 2) < 2 ^ 53" by (simp add: collinearRing_def)
  have "shoelace (pairsOf collinearRing) = 0"
    by (simp add: collinearRing_def shoelace_def)
  with correctWinding_single [OF h1 h2 _ _ h5 h6, of GT_Polygon None None] show ?thesis by simp
qed

text \<open>
  The bound on the coordinates is needed.  The exterior ring \<open>largeTriangle\<close> has the
  shoelace sum \<open>-1\<close>; \<open>signedArea\<close>, rounding the products, computes 3 and the ring is left as
  it is.
\<close>

lemma correctWinding_largeTriangle:
  "shoelace (pairsOf largeTriangle) = - 1 \<and>
   signedArea largeTriangle 0 6 = Some 3 \<and>
   correctWinding largeTriangle None GT_Polygon None = largeTriangle"
  by code_simp

section \<open>Simplification: tolerance and vertex count\<close>

lemma exceeds_mono: "t \<le> t' \<Longrightarrow> exceeds v t' \<Longrightarrow> exceeds v t"
  by (cases v) (simp_all add: exceeds_def)

lemma emitKept_mono:
  "t \<le> t' \<Longrightarrow> length (emitKept xy imp t' i) \<le> length (emitKept xy imp t i)"
  using exceeds_mono [of t t' "imp ! i"] by (auto simp: emitKept_def)

lemma concat_emitKept_mono:
  assumes "t \<le> t'"
  shows "length (concat (map (emitKept xy imp t') is)) \<le> length (concat (map (emitKept xy imp t) is))"
proof (induction "is")
  case Nil
  show ?case by simp
next
  case (Cons i "is")
  with emitKept_mono [OF assms, of xy imp i] show ?case by simp
qed

text \<open>
  C7, as amended.  \<open>simplify\<close> is monotone in the tolerance: for \<open>t \<le> t'\<close> the result for
  \<open>t'\<close> has at most as many vertices as the result for \<open>t\<close>.  (The importance of a vertex
  does not depend on the tolerance; the tolerance only filters.)
\<close>

theorem simplify_monotone:
  assumes "t \<le> t'"
  shows "length (simplify xy t') div 2 \<le> length (simplify xy t) div 2"
proof -
  have "length (simplify xy t') \<le> length (simplify xy t)"
    using concat_emitKept_mono [OF assms]
    by (simp add: simplify_def Let_def)
  then show ?thesis by (rule div_le_mono)
qed

lemma simplify_hookLine: "simplify hookLine 1 = [0, 0, 8, 1 / 2, 16, 0]"
  by code_simp

lemma simplify_hookLine_again: "simplify [0, 0, 8, 1 / 2, 16, 0] 1 = [0, 0, 16, 0]"
  by code_simp

theorem simplify_monotone_witness:
  "(1::real) \<le> 10 \<and> length (simplify hookLine 10) div 2 \<le> length (simplify hookLine 1) div 2 \<and>
   length (simplify hookLine 1) div 2 = 3"
  using simplify_monotone [of 1 10 hookLine] by (simp add: simplify_hookLine)

text \<open>
  The claim as stated also asks for idempotence.  On the line \<open>(0,0), (8,\<onehalf>), (5,1), (16,0)\<close>
  with squared tolerance 1 the first pass drops \<open>(5,1)\<close> (importance 1) and keeps
  \<open>(8,\<onehalf>)\<close>, whose importance \<open>37/4\<close> was measured against the segment to \<open>(5,1)\<close>;
  the second pass measures \<open>(8,\<onehalf>)\<close> against the segment to \<open>(16,0)\<close> and drops it.
\<close>

theorem simplify_not_idempotent_counterexample:
  "simplify (simplify hookLine 1) 1 \<noteq> simplify hookLine 1"
  by (simp add: simplify_hookLine simplify_hookLine_again)

section \<open>Properties: what a malformed entry does\<close>

lemma getUintLE_RangeError:
  "int (byteLength v) < ofs + int n \<Longrightarrow> getUintLE n v ofs = Inl RangeError"
  by (simp add: getUintLE_def)

lemmas CT_defs =
  CT_Bool_def CT_Byte_def CT_UByte_def CT_Short_def CT_UShort_def CT_Int_def CT_UInt_def
  CT_Long_def CT_ULong_def CT_Float_def CT_Double_def CT_String_def CT_Json_def
  CT_DateTime_def CT_Binary_def

lemma readPropertyValue_Bool:
  "readPropertyValue v b ofs CT_Bool = bindE (getUint8 v ofs) (\<lambda>x. Inr (PBool (x \<noteq> 0), 1))"
  by (simp add: readPropertyValue_def)

lemma readPropertyValue_Byte:
  "readPropertyValue v b ofs CT_Byte = bindE (getInt8 v ofs) (\<lambda>x. Inr (PInt x, 1))"
  by (simp add: readPropertyValue_def CT_defs)

lemma readPropertyValue_UByte:
  "readPropertyValue v b ofs CT_UByte = bindE (getUint8 v ofs) (\<lambda>x. Inr (PInt x, 1))"
  by (simp add: readPropertyValue_def CT_defs)

lemma readPropertyValue_Short:
  "readPropertyValue v b ofs CT_Short = bindE (getInt16 v ofs) (\<lambda>x. Inr (PInt x, 2))"
  by (simp add: readPropertyValue_def CT_defs)

lemma readPropertyValue_UShort:
  "readPropertyValue v b ofs CT_UShort = bindE (getUint16 v ofs) (\<lambda>x. Inr (PInt x, 2))"
  by (simp add: readPropertyValue_def CT_defs)

lemma readPropertyValue_Int:
  "readPropertyValue v b ofs CT_Int = bindE (getInt32 v ofs) (\<lambda>x. Inr (PInt x, 4))"
  by (simp add: readPropertyValue_def CT_defs)

lemma readPropertyValue_UInt:
  "readPropertyValue v b ofs CT_UInt = bindE (getUint32 v ofs) (\<lambda>x. Inr (PInt x, 4))"
  by (simp add: readPropertyValue_def CT_defs)

lemma readPropertyValue_Float:
  "readPropertyValue v b ofs CT_Float = bindE (getFloat32 v ofs) (\<lambda>x. Inr (PFloat32 x, 4))"
  by (simp add: readPropertyValue_def CT_defs)

lemma readPropertyValue_Long:
  "readPropertyValue v b ofs CT_Long =
     bindE (getUint32 v ofs) (\<lambda>lo. bindE (getInt32 v (ofs + 4)) (\<lambda>hi.
       Inr (PInt (hi * 0x100000000 + lo), 8)))"
  by (simp add: readPropertyValue_def CT_defs)

lemma readPropertyValue_ULong:
  "readPropertyValue v b ofs CT_ULong =
     bindE (getUint32 v ofs) (\<lambda>lo. bindE (getUint32 v (ofs + 4)) (\<lambda>hi.
       Inr (PInt (hi * 0x100000000 + lo), 8)))"
  by (simp add: readPropertyValue_def CT_defs)

lemma readPropertyValue_Double:
  "readPropertyValue v b ofs CT_Double = bindE (getFloat64 v ofs) (\<lambda>x. Inr (PFloat64 x, 8))"
  by (simp add: readPropertyValue_def CT_defs)

lemma bindE_RangeError: "m = Inl RangeError \<Longrightarrow> bindE m f = Inl RangeError"
  by (simp add: bindE_def)

lemma bindE_RangeError2:
  "(\<And>x. f x = Inl RangeError) \<Longrightarrow> bindE (getUintLE n v ofs) f = Inl RangeError"
  by (simp add: getUintLE_def bindE_def)

lemma getIntLE_RangeError:
  "int (byteLength v) < ofs + int n \<Longrightarrow> getIntLE n v ofs = Inl RangeError"
  by (simp add: getIntLE_def getUintLE_RangeError bindE_def)

lemma readPropertyValue_truncatedFixed:
  assumes "truncatedFixed pb ofs ty"
  shows "readPropertyValue pb pb ofs ty = Inl RangeError"
proof -
  from assms obtain w where w: "fixedWidth ty = Some w" and cut: "int (byteLength pb) < ofs + int w"
    by (auto simp: truncatedFixed_def split: option.splits)
  from w consider
      (b1) "w = 1" "ty = CT_Bool \<or> ty = CT_Byte \<or> ty = CT_UByte"
    | (b2) "w = 2" "ty = CT_Short \<or> ty = CT_UShort"
    | (b4) "w = 4" "ty = CT_Int \<or> ty = CT_UInt \<or> ty = CT_Float"
    | (b8) "w = 8" "ty = CT_Long \<or> ty = CT_ULong \<or> ty = CT_Double"
    unfolding fixedWidth_def by (auto split: if_splits)
  then show ?thesis
  proof cases
    case b1
    with cut have "getUintLE 1 pb ofs = Inl RangeError" "getIntLE 1 pb ofs = Inl RangeError"
      by (simp_all add: getUintLE_RangeError getIntLE_RangeError)
    with b1(2) show ?thesis
      by (auto simp: readPropertyValue_Bool readPropertyValue_Byte readPropertyValue_UByte
          getUint8_def getInt8_def bindE_def)
  next
    case b2
    with cut have "getUintLE 2 pb ofs = Inl RangeError" "getIntLE 2 pb ofs = Inl RangeError"
      by (simp_all add: getUintLE_RangeError getIntLE_RangeError)
    with b2(2) show ?thesis
      by (auto simp: readPropertyValue_Short readPropertyValue_UShort
          getUint16_def getInt16_def bindE_def)
  next
    case b4
    with cut have "getUintLE 4 pb ofs = Inl RangeError" "getIntLE 4 pb ofs = Inl RangeError"
      by (simp_all add: getUintLE_RangeError getIntLE_RangeError)
    with b4(2) show ?thesis
      by (auto simp: readPropertyValue_Int readPropertyValue_UInt readPropertyValue_Float
          getUint32_def getInt32_def getFloat32_def bindE_def)
  next
    case b8
    with cut have hi: "getUintLE 4 pb (ofs + 4) = Inl RangeError"
      "getIntLE 4 pb (ofs + 4) = Inl RangeError" "getUintLE 8 pb ofs = Inl RangeError"
      by (simp_all add: getUintLE_RangeError getIntLE_RangeError)
    have "bindE (getUintLE 4 pb ofs) (\<lambda>lo. bindE (getIntLE 4 pb (ofs + 4)) (\<lambda>hi.
            Inr (PInt (hi * 0x100000000 + lo), 8))) = Inl RangeError"
      by (rule bindE_RangeError2) (simp add: hi bindE_def)
    moreover have "bindE (getUintLE 4 pb ofs) (\<lambda>lo. bindE (getUintLE 4 pb (ofs + 4)) (\<lambda>hi.
            Inr (PInt (hi * 0x100000000 + lo), 8))) = Inl RangeError"
      by (rule bindE_RangeError2) (simp add: hi bindE_def)
    ultimately show ?thesis
      using b8(2) hi(3)
      by (auto simp: readPropertyValue_Long readPropertyValue_ULong readPropertyValue_Double
          getUint32_def getInt32_def getFloat64_def bindE_def)
  qed
qed

lemma readPropertyValue_undefinedType:
  assumes "undefinedType ty"
  shows "readPropertyValue v b ofs ty = Inr (PNull, 0)"
proof -
  from assms have
    "ty \<noteq> CT_Bool" "ty \<noteq> CT_Byte" "ty \<noteq> CT_UByte" "ty \<noteq> CT_Short" "ty \<noteq> CT_UShort"
    "ty \<noteq> CT_Int" "ty \<noteq> CT_UInt" "ty \<noteq> CT_Float" "ty \<noteq> CT_Long" "ty \<noteq> CT_ULong"
    "ty \<noteq> CT_Double" "ty \<noteq> CT_String" "ty \<noteq> CT_Json" "ty \<noteq> CT_DateTime" "ty \<noteq> CT_Binary"
    unfolding undefinedType_def fixedWidth_def lengthPrefixed_def
    by (auto split: if_splits)
  then show ?thesis
    by (simp add: readPropertyValue_def)
qed

lemma readPropertyValue_text:
  assumes "ty = CT_String \<or> ty = CT_Json \<or> ty = CT_DateTime"
  shows "readPropertyValue v b ofs ty =
    (if ofs + 4 > int (byteLength b) then Inr (PNull, 0)
     else bindE (getUint32 v ofs) (\<lambda>strLen.
       if ofs + 4 + strLen > int (byteLength b) then Inr (PNull, 0)
       else Inr (PString (window (subarray b (nat (ofs + 4)) (nat (ofs + 4 + strLen)))),
                 4 + strLen)))"
  using assms by (auto simp: readPropertyValue_def CT_defs)

lemma readPropertyValue_Binary:
  "readPropertyValue v b ofs CT_Binary =
    (if ofs + 4 > int (byteLength b) then Inr (PNull, 0)
     else bindE (getUint32 v ofs) (\<lambda>binLen.
       if ofs + 4 + binLen > int (byteLength b) then Inr (PNull, 0)
       else bindE (newView (buffer b) (int (byteOffset b) + ofs + 4) binLen) (\<lambda>bin.
         Inr (PBinary (window bin), 4 + binLen))))"
  by (simp add: readPropertyValue_def CT_defs)

lemma readPropertyValue_truncatedPrefixed:
  assumes "truncatedPrefixed pb ofs ty"
  shows "readPropertyValue pb pb ofs ty = Inr (PNull, 0)"
proof -
  from assms have lp: "(ty = CT_String \<or> ty = CT_Json \<or> ty = CT_DateTime) \<or> ty = CT_Binary"
    and cut: "ofs + 4 > int (byteLength pb) \<or>
       (\<exists>len. getUint32 pb ofs = Inr len \<and> ofs + 4 + len > int (byteLength pb))"
    by (auto simp: truncatedPrefixed_def lengthPrefixed_def split: sum.splits)
  from lp show ?thesis
  proof
    assume "ty = CT_String \<or> ty = CT_Json \<or> ty = CT_DateTime"
    from readPropertyValue_text [OF this] cut show ?thesis
      by (auto simp: bindE_def)
  next
    assume "ty = CT_Binary"
    with readPropertyValue_Binary cut show ?thesis
      by (auto simp: bindE_def)
  qed
qed

lemma readPropertyValue_null:
  assumes "truncatedPrefixed pb ofs ty \<or> undefinedType ty"
  shows "readPropertyValue pb pb ofs ty = Inr (PNull, 0)"
  using assms readPropertyValue_undefinedType readPropertyValue_truncatedPrefixed by blast

text \<open>
  What the loop does at a malformed entry, one whose two index bytes lie inside the
  properties bytes. A column index that the schema does not have ends the parsing with the
  properties collected so far and no error. A length-prefixed value that is cut off, or a
  column type outside the enum, records \<open>null\<close> for the column, and the loop goes on right
  after the column index, reading the bytes of the value as further pairs. A fixed-width
  value that is cut off raises a \<open>RangeError\<close>.
\<close>

lemma propsLoop_malformed_entry:
  assumes "0 \<le> ofs" and "ofs + 2 \<le> int (byteLength pb)" and "getUint16 pb ofs = Inr colIdx"
  shows "(int (length cols) \<le> colIdx \<longrightarrow> propsLoop pb pb cols ofs props = Inr props) \<and>
         (colIdx < int (length cols) \<and>
            (truncatedPrefixed pb (ofs + 2) (type_c (cols ! nat colIdx)) \<or>
             undefinedType (type_c (cols ! nat colIdx))) \<longrightarrow>
          propsLoop pb pb cols ofs props =
            propsLoop pb pb cols (ofs + 2) (mapSet (name_c (cols ! nat colIdx)) PNull props)) \<and>
         (colIdx < int (length cols) \<and> truncatedFixed pb (ofs + 2) (type_c (cols ! nat colIdx)) \<longrightarrow>
          propsLoop pb pb cols ofs props = Inl RangeError)"
proof (intro conjI impI)
  assume "int (length cols) \<le> colIdx"
  with assms show "propsLoop pb pb cols ofs props = Inr props"
    by (subst propsLoop.simps) simp
next
  assume a: "colIdx < int (length cols) \<and>
    (truncatedPrefixed pb (ofs + 2) (type_c (cols ! nat colIdx)) \<or>
     undefinedType (type_c (cols ! nat colIdx)))"
  then have "readPropertyValue pb pb (ofs + 2) (type_c (cols ! nat colIdx)) = Inr (PNull, 0)"
    by (simp add: readPropertyValue_null)
  with a assms show "propsLoop pb pb cols ofs props =
      propsLoop pb pb cols (ofs + 2) (mapSet (name_c (cols ! nat colIdx)) PNull props)"
    by (subst propsLoop.simps) (simp add: Let_def)
next
  assume a: "colIdx < int (length cols) \<and> truncatedFixed pb (ofs + 2) (type_c (cols ! nat colIdx))"
  then have "readPropertyValue pb pb (ofs + 2) (type_c (cols ! nat colIdx)) = Inl RangeError"
    by (simp add: readPropertyValue_truncatedFixed)
  with a assms show "propsLoop pb pb cols ofs props = Inl RangeError"
    by (subst propsLoop.simps) (simp add: Let_def)
qed


text \<open>
  C3. The code diverges from the claim on a truncated value. After the string that is cut
  off, \<open>decodeProperties\<close> does not stop: it records \<open>null\<close> for \<open>a\<close>, reads the next pair and
  adds the entry \<open>b\<close>. On the integer that is cut off it raises a \<open>RangeError\<close>. And after the
  entry of a column whose type is outside the enum it adds the entry \<open>b\<close> as well.
\<close>

theorem decodeProperties_truncated_value:
  "decodeProperties cutStringVector 0 twoColumns = Inr [(''a'', PNull), (''b'', PBool True)] \<and>
   decodeProperties cutIntVector 0 twoColumns = Inl RangeError \<and>
   propsLoop unknownType unknownType twoColumns 0 [] = Inr [(''d'', PNull), (''b'', PBool True)]"
  by code_simp





lemma window_unorderedIndex:
  "window unorderedIndex =
     replicate 32 0 @ [1, 0, 0, 0, 0, 0, 0, 0] @
     replicate 32 0 @ [100, 0, 0, 0, 0, 0, 0, 0] @
     replicate 32 0 @ [50, 0, 0, 0, 0, 0, 0, 0]"
  by (simp add: unorderedIndex_def bytesOf_def window_def indexNode_def le64_def upt_rec)

lemma byteLength_unorderedIndex: "byteLength unorderedIndex = 120"
  by (simp add: unorderedIndex_def bytesOf_def indexNode_def le64_def)

lemma leValue_zeros: "leValue (replicate n 0) = 0"
  by (induction n) simp_all


lemma offset_reads:
  "readUint64AsNumber unorderedIndex 32 = Inr 1"
  "readUint64AsNumber unorderedIndex 72 = Inr 100"
  "readUint64AsNumber unorderedIndex 112 = Inr 50"
  by (simp_all add: readUint64AsNumber_def getUint32_def getUintLE_def bindE_def
      byteLength_unorderedIndex window_unorderedIndex leValue_zeros)




lemma sort_21: "sort [2, 1 :: int] = [1, 2]"
  by simp

lemma rangesLoop_unorderedIndex:
  "rangesLoop unorderedIndex 0 3 [1, 2] =
     Inr [\<lparr>offset = 100, length_r = - 50\<rparr>, \<lparr>offset = 50, length_r = 1048576\<rparr>]"
  by (simp add: NODE_ITEM_SIZE_def offset_reads bindE_def)



section \<open>The query: what a malformed index does\<close>

lemma onlyRangeError_Inr [simp]: "onlyRangeError (Inr x)"
  by (simp add: onlyRangeError_def)

lemma onlyRangeError_Inl [simp]: "onlyRangeError (Inl e) = (e = RangeError)"
  by (simp add: onlyRangeError_def)





















section \<open>The pipeline: a zoom outside the range of the source\<close>

text \<open>
  C8. When the zoom is strictly below \<open>minZoom\<close> or strictly above \<open>maxZoom\<close>, \<open>processSource\<close>
  resolves with the empty layer of the source: its name, the extent of the options, and no
  features, keys or values. The list of connector calls is unchanged: no call is made,
  whatever the connector, the cache and the later stages are.
\<close>

theorem processSource_out_of_zoom:
  assumes "js_lt z (minZoom tileOpts) \<or> js_gt z (maxZoom tileOpts)"
  shows "processSource parseHeader buildMvtLayer connector source z x y wgs84BBox clipBounds
           tileOpts cache calls =
         (Returns \<lparr>name_l = name_s source, extent_l = extent_o tileOpts,
                    features = [], keys = [], values_l = []\<rparr>, calls)"
  using assms by (simp add: processSource_def emptyLayer_def)

theorem processSource_out_of_zoom_witness:
  "js_gt (Num 25) (maxZoom DEFAULT_TILE_OPTIONS) \<and>
   processSource noHeader noLayer failingConnector roads (Num 25) (Num 0) (Num 0) originBox
     originBox DEFAULT_TILE_OPTIONS None [] =
   (Returns \<lparr>name_l = ''roads'', extent_l = Num 4096, features = [], keys = [], values_l = []\<rparr>, [])"
proof -
  have h: "js_lt (Num 25) (minZoom DEFAULT_TILE_OPTIONS) \<or> js_gt (Num 25) (maxZoom DEFAULT_TILE_OPTIONS)"
    by (simp add: DEFAULT_TILE_OPTIONS_def js_gt_def)
  from processSource_out_of_zoom [OF h, of noHeader noLayer failingConnector roads "Num 0" "Num 0"
      originBox originBox None "[]"]
  show ?thesis
    by (simp add: DEFAULT_TILE_OPTIONS_def js_gt_def roads_def)
qed

text \<open>
  Inside the range the same request reaches the connector: the first read of the header is
  logged, and its failure is the outcome.
\<close>

lemma processSource_in_zoom_reads:
  "processSource noHeader noLayer failingConnector roads (Num 24) (Num 0) (Num 0) originBox
     originBox DEFAULT_TILE_OPTIONS None [] =
   (Throws (Error ''read failed''), [Read ''roads.fgb'' 0 12])"
  by (simp add: processSource_def DEFAULT_TILE_OPTIONS_def js_gt_def roads_def readHeader_def
      failingConnector_def INITIAL_HEADER_READ_SIZE_def HEADER_MAGIC_SIZE_def)

section \<open>Features carry no id\<close>

subsection \<open>Decoding\<close>

lemma decodeSingleFeature_id:
  assumes "decodeSingleFeature b gt cols = Inr (Some f)"
  shows "id_f f = None"
  using assms unfolding decodeSingleFeature_def bindE_def
  by (auto split: sum.splits option.splits if_splits)

lemma featuresLoop_ids:
  "featuresLoop b gt cols mx ofs acc = Inr fs \<Longrightarrow> \<forall>f \<in> set acc. id_f f = None \<Longrightarrow>
   \<forall>f \<in> set fs. id_f f = None"
proof (induction b gt cols mx ofs acc rule: featuresLoop.induct)
  case (1 b gt cols mx ofs acc)
  show ?case
  proof (cases "ofs < int (byteLength b) \<and> belowMax (length acc) mx \<and> \<not> ofs + 4 > int (byteLength b)")
    case False
    with "1.prems" show ?thesis
      by (subst (asm) featuresLoop.simps) (auto split: if_splits)
  next
    case c: True
    show ?thesis
    proof (cases "newView (buffer b) (int (byteOffset b) + ofs) 4")
      case (Inl e)
      with c "1.prems"(1) show ?thesis
        by (subst (asm) featuresLoop.simps) simp
    next
      case v: (Inr v)
      show ?thesis
      proof (cases "getUint32 v 0")
        case (Inl e)
        with c v "1.prems"(1) show ?thesis
          by (subst (asm) featuresLoop.simps) simp
      next
        case n: (Inr featureSize)
        show ?thesis
        proof (cases "featureSize = 0 \<or> ofs + 4 + featureSize > int (byteLength b)")
          case True
          with c v n "1.prems" show ?thesis
            by (subst (asm) featuresLoop.simps) (auto split: if_splits)
        next
          case s: False
          let ?fb = "subarray b (nat (ofs + 4)) (nat (ofs + 4 + featureSize))"
          show ?thesis
          proof (cases "decodeSingleFeature ?fb gt cols")
            case (Inl e)
            with c v n s "1.prems"(1) show ?thesis
              by (subst (asm) featuresLoop.simps) (simp add: Let_def)
          next
            case d: (Inr feature)
            let ?acc = "case feature of Some f \<Rightarrow> acc @ [f] | None \<Rightarrow> acc"
            from c v n s d "1.prems"(1)
            have r: "featuresLoop b gt cols mx (ofs + 4 + featureSize) ?acc = Inr fs"
              by (subst (asm) featuresLoop.simps) (simp add: Let_def)
            have a: "\<forall>f \<in> set ?acc. id_f f = None"
              using "1.prems"(2) d decodeSingleFeature_id
              by (cases feature) auto
            from c s have c1: "ofs < int (byteLength b) \<and> belowMax (length acc) mx"
              and c2: "\<not> int (byteLength b) < ofs + 4" and c3: "featureSize \<noteq> 0"
              and c4: "\<not> int (byteLength b) < ofs + 4 + featureSize" by auto
            from "1.IH" [OF c1 c2 v n c3 c4 refl d r a] show ?thesis .
          qed
        qed
      qed
    qed
  qed
qed

text \<open>The bytes of the writer's methods.\<close>

lemma writeVarint_buf:
  "writeVarint w v = w\<lparr>buf := buf w @ encodeVarint v\<rparr>"
  by (simp add: writeVarint_def encodeVarint_def)

lemma foldl_writeVarint:
  "foldl writeVarint w vs = w\<lparr>buf := buf w @ packedPayload vs\<rparr>"
proof (induction vs arbitrary: w)
  case Nil
  show ?case by (simp add: packedPayload_def)
next
  case (Cons v vs)
  have "foldl writeVarint w (v # vs) = foldl writeVarint (writeVarint w v) vs" by simp
  also have "\<dots> = (writeVarint w v)\<lparr>buf := buf (writeVarint w v) @ packedPayload vs\<rparr>"
    by (rule Cons.IH)
  also have "\<dots> = w\<lparr>buf := buf w @ packedPayload (v # vs)\<rparr>"
    by (simp add: writeVarint_def encodeVarint_def packedPayload_def)
  finally show ?case .
qed

lemma varintLoop_small: "v \<le> 0x7f \<Longrightarrow> varintLoop v = [toUint8 v]"
  by (subst varintLoop.simps) simp

lemma varintLoop_step:
  assumes "0x7f < v" and "v < 2 ^ 32"
  shows "varintLoop v = toUint8 (v mod 128 + 128) # varintLoop (v div 128)"
proof -
  have "js_shr v 7 = v div 128"
    using assms by (simp add: js_shr_def toUint32_def)
  with assms show ?thesis
    by (subst varintLoop.simps) (simp add: continuation_byte)
qed

lemma length_varintLoop:
  assumes "0 \<le> v" and "v < 2 ^ 32"
  shows "length (varintLoop v) = varintSize v"
proof -
  have step: "length (varintLoop u) = Suc (length (varintLoop (u div 128)))"
    if "0x7f < u" "u < 2 ^ 32" for u
    using varintLoop_step [OF that] by simp
  have small: "length (varintLoop u) = 1" if "u \<le> 0x7f" for u :: int
    using that by (simp add: varintLoop_small)
  have d: "u div 128 \<le> k div 128" if "u \<le> k" for u k :: int
    using that by (intro zdiv_mono1) simp_all
  have l: "0x7f < u div 128" if "0x4000 \<le> u" for u :: int
  proof -
    have "(0x4000::int) div 128 \<le> u div 128" using that by (intro zdiv_mono1) simp_all
    then show ?thesis by simp
  qed
  have l2: "0x4000 \<le> u div 128" if "0x200000 \<le> u" for u :: int
  proof -
    have "(0x200000::int) div 128 \<le> u div 128" using that by (intro zdiv_mono1) simp_all
    then show ?thesis by simp
  qed
  have l3: "0x200000 \<le> u div 128" if "0x10000000 \<le> u" for u :: int
  proof -
    have "(0x10000000::int) div 128 \<le> u div 128" using that by (intro zdiv_mono1) simp_all
    then show ?thesis by simp
  qed
  have s2: "length (varintLoop u) = 2" if "0x7f < u" "u < 0x4000" for u :: int
  proof -
    have "u div 128 \<le> 0x7f" using d [of u "0x3fff"] that by simp
    with step [of u] that small [of "u div 128"] show ?thesis by simp
  qed
  have s3: "length (varintLoop u) = 3" if "0x4000 \<le> u" "u < 0x200000" for u :: int
  proof -
    have "u div 128 < 0x4000" using d [of u "0x1fffff"] that by simp
    with step [of u] that s2 [of "u div 128"] l [of u] show ?thesis by simp
  qed
  have s4: "length (varintLoop u) = 4" if "0x200000 \<le> u" "u < 0x10000000" for u :: int
  proof -
    have "u div 128 < 0x200000" using d [of u "0xfffffff"] that by simp
    with step [of u] that s3 [of "u div 128"] l2 [of u] show ?thesis by simp
  qed
  have s5: "length (varintLoop u) = 5" if "0x10000000 \<le> u" "u < 2 ^ 32" for u :: int
  proof -
    have "u div 128 < 0x10000000" using d [of u "0xffffffff"] that by simp
    with step [of u] that s4 [of "u div 128"] l3 [of u] show ?thesis by simp
  qed
  consider "v \<le> 0x7f" | "0x7f < v" "v < 0x4000" | "0x4000 \<le> v" "v < 0x200000"
    | "0x200000 \<le> v" "v < 0x10000000" | "0x10000000 \<le> v"
    by linarith
  then show ?thesis
  proof cases
    case 1
    with assms small [of v] show ?thesis by (simp add: varintSize_def)
  next
    case 2
    with assms s2 [of v] show ?thesis by (simp add: varintSize_def)
  next
    case 3
    with assms s3 [of v] show ?thesis by (simp add: varintSize_def)
  next
    case 4
    with assms s4 [of v] show ?thesis by (simp add: varintSize_def)
  next
    case 5
    with assms s5 [of v] show ?thesis by (simp add: varintSize_def)
  qed
qed


lemma byteLen_fold:
  "foldl (\<lambda>n v. n + int (varintSize v)) a vs = a + (\<Sum>v\<leftarrow>vs. int (varintSize v))"
  by (induction vs arbitrary: a) simp_all

lemma length_packedPayload:
  assumes "uint32s vs"
  shows "int (length (packedPayload vs)) = (\<Sum>v\<leftarrow>vs. int (varintSize v))"
  using assms
proof (induction vs)
  case Nil
  show ?case by (simp add: packedPayload_def)
next
  case (Cons v vs)
  then have v: "0 \<le> v" "v < 2 ^ 32" and vs: "uint32s vs" by (simp_all add: uint32s_def)
  from Cons.IH [OF vs] length_varintLoop [OF v] v show ?case
    by (simp add: packedPayload_def encodeVarint_def)
qed

lemma varintSize_le_5: "0 \<le> v \<Longrightarrow> varintSize v \<le> 5"
  by (simp add: varintSize_def)

lemma packedPayload_short:
  assumes "uint32s vs"
  shows "length (packedPayload vs) \<le> 5 * length vs"
  using assms
proof (induction vs)
  case Nil
  show ?case by (simp add: packedPayload_def)
next
  case (Cons v vs)
  then have v: "0 \<le> v" "v < 2 ^ 32" and vs: "uint32s vs" by (simp_all add: uint32s_def)
  from Cons.IH [OF vs] length_varintLoop [OF v] varintSize_le_5 [OF v(1)] v show ?case
    by (simp add: packedPayload_def encodeVarint_def)
qed

lemma tag_bytes:
  "js_or (js_shl 2 3) WIRE_LEN = 0x12" "js_or (js_shl 3 3) WIRE_VARINT = 0x18"
  "js_or (js_shl 4 3) WIRE_LEN = 0x22"
  by (simp_all add: js_or_def js_shl_def toInt32_def WIRE_LEN_def WIRE_VARINT_def)

lemma writeTag_bytes:
  "writeTag w 2 WIRE_LEN = w\<lparr>buf := buf w @ [0x12]\<rparr>"
  "writeTag w 3 WIRE_VARINT = w\<lparr>buf := buf w @ [0x18]\<rparr>"
  "writeTag w 4 WIRE_LEN = w\<lparr>buf := buf w @ [0x22]\<rparr>"
  by (simp_all add: writeTag_def tag_bytes writeVarint_def varintLoop_small toUint8_def)

lemma writePackedVarint_tags:
  assumes "uint32s vs"
  shows "writePackedVarint w 2 vs = w\<lparr>buf := buf w @ packedField 0x12 vs\<rparr>"
proof (cases "vs = []")
  case True
  then show ?thesis by (simp add: writePackedVarint_def packedField_def)
next
  case False
  have n: "0 \<le> (\<Sum>v\<leftarrow>vs. int (varintSize v))"
    by (rule sum_list_nonneg) auto
  from False n show ?thesis
    by (simp add: writePackedVarint_def Let_def writeTag_bytes byteLen_fold foldl_writeVarint
        writeVarint_def packedField_def length_packedPayload [OF assms])
qed

lemma writePackedVarint_geometry:
  assumes "uint32s vs"
  shows "writePackedVarint w 4 vs = w\<lparr>buf := buf w @ packedField 0x22 vs\<rparr>"
proof (cases "vs = []")
  case True
  then show ?thesis by (simp add: writePackedVarint_def packedField_def)
next
  case False
  have n: "0 \<le> (\<Sum>v\<leftarrow>vs. int (varintSize v))"
    by (rule sum_list_nonneg) auto
  from False n show ?thesis
    by (simp add: writePackedVarint_def Let_def writeTag_bytes byteLen_fold foldl_writeVarint
        writeVarint_def packedField_def length_packedPayload [OF assms])
qed

lemma endMessage_bytes:
  assumes st: "lengthStack w = st @ [length pre]" and b: "buf w = pre @ ph @ body"
    and ph: "length ph = 5" and len: "length body < 2 ^ 32"
  shows "endMessage w = \<lparr>buf = pre @ varintLoop (int (length body)) @ body, lengthStack = st\<rparr>"
proof -
  let ?lb = "varintLoop (int (length body))"
  have ml: "int (pos w) - int (length pre) - 5 = int (length body)"
    using b ph by (simp add: pos_def)
  have k: "length ?lb = varintSize (int (length body))"
    using len by (intro length_varintLoop) simp_all
  have k5: "length ?lb \<le> 5" unfolding k by (rule varintSize_le_5) simp
  define shifted where "shifted = (if length ?lb < 5
      then take (length pre + length ?lb) (buf w) @ drop (length pre + 5) (buf w) else buf w)"
  have sh: "shifted = pre @ take (length ?lb) ph @ body"
    using k5 ph by (auto simp: shifted_def b)
  have ow: "overwrite shifted (length pre) ?lb = pre @ ?lb @ body"
    using k5 ph by (simp add: sh overwrite_def)
  have "endMessage w = \<lparr>buf = overwrite shifted (length pre) ?lb, lengthStack = st\<rparr>"
    unfolding shifted_def using st
    by (simp add: endMessage_def Let_def ml k [symmetric])
  then show ?thesis by (simp add: ow)
qed


lemma beginMessage_bytes:
  "beginMessage w 2 =
     \<lparr>buf = (buf w @ [0x12]) @ replicate 5 0 @ [], lengthStack = lengthStack w @ [length (buf w @ [0x12])]\<rparr>"
  by (simp add: beginMessage_def Let_def writeTag_bytes pos_def)

lemma writeVarintField_type:
  assumes "0 \<le> v"
  shows "writeVarintField w 3 v = w\<lparr>buf := buf w @ 0x18 # varintLoop v\<rparr>"
  using assms by (simp add: writeVarintField_def writeTag_bytes writeVarint_def)

lemma writeFeature_bytes:
  assumes id: "id_m feature = None"
    and t: "uint32s (tags feature)" and g: "uint32s (geometry feature)"
    and ty: "0 \<le> type_m feature"
    and len: "length (featureBody feature) < 2 ^ 32"
  shows "writeFeature w feature =
     \<lparr>buf = (buf w @ [0x12]) @ varintLoop (int (length (featureBody feature))) @ featureBody feature,
      lengthStack = lengthStack w\<rparr>"
proof -
  define w1 where "w1 = beginMessage w 2"
  define w3 where "w3 = (if length (tags feature) > 0 then writePackedVarint w1 2 (tags feature) else w1)"
  define w4 where "w4 = writeVarintField w3 3 (type_m feature)"
  define w5 where "w5 = (if length (geometry feature) > 0
      then writePackedVarint w4 4 (geometry feature) else w4)"
  have e: "writeFeature w feature = endMessage w5"
    by (simp add: writeFeature_def Let_def id w1_def w3_def w4_def w5_def)
  have b3: "w3 = w1\<lparr>buf := buf w1 @ packedField 0x12 (tags feature)\<rparr>"
    by (simp add: w3_def writePackedVarint_tags [OF t] packedField_def)
  have b4: "w4 = w3\<lparr>buf := buf w3 @ 0x18 # varintLoop (type_m feature)\<rparr>"
    by (simp add: w4_def writeVarintField_type [OF ty])
  have b5: "w5 = w4\<lparr>buf := buf w4 @ packedField 0x22 (geometry feature)\<rparr>"
    by (simp add: w5_def writePackedVarint_geometry [OF g] packedField_def)
  have st: "lengthStack w5 = lengthStack w @ [length (buf w @ [0x12])]"
    by (simp add: b5 b4 b3 w1_def beginMessage_bytes)
  have bf: "buf w5 = (buf w @ [0x12]) @ replicate 5 0 @ featureBody feature"
    by (simp add: b5 b4 b3 w1_def beginMessage_bytes featureBody_def)
  from endMessage_bytes [OF st bf _ len] show ?thesis
    unfolding e by simp
qed

subsection \<open>Reading the message back\<close>

lemma readFields_Nil: "readFields [] = Some []"
  by (subst readFields.simps) simp

lemma readVarint_tag:
  "readVarint (0x12 # rest) = Some (18, rest)" "readVarint (0x18 # rest) = Some (24, rest)"
  "readVarint (0x22 # rest) = Some (34, rest)"
  by simp_all

lemma readFields_tags:
  assumes "length payload < 2 ^ 32"
  shows "readFields (0x12 # varintLoop (int (length payload)) @ payload @ rest) =
    map_option (Cons (LenField 2 payload)) (readFields rest)"
proof -
  have "readVarint (varintLoop (int (length payload)) @ payload @ rest) =
      Some (length payload, payload @ rest)"
    using readVarint_varintLoop [of "int (length payload)" "payload @ rest"] assms by simp
  then show ?thesis
    by (subst readFields.simps) (simp add: readVarint_tag)
qed

lemma readFields_geometry:
  assumes "length payload < 2 ^ 32"
  shows "readFields (0x22 # varintLoop (int (length payload)) @ payload @ rest) =
    map_option (Cons (LenField 4 payload)) (readFields rest)"
proof -
  have "readVarint (varintLoop (int (length payload)) @ payload @ rest) =
      Some (length payload, payload @ rest)"
    using readVarint_varintLoop [of "int (length payload)" "payload @ rest"] assms by simp
  then show ?thesis
    by (subst readFields.simps) (simp add: readVarint_tag)
qed

lemma readFields_type:
  assumes "0 \<le> v" and "v < 2 ^ 32"
  shows "readFields (0x18 # varintLoop v @ rest) =
    map_option (Cons (VarintField 3 (nat v))) (readFields rest)"
  using readVarint_varintLoop [OF assms, of rest]
  by (subst readFields.simps) (simp add: readVarint_tag)

lemma readFields_featureBody:
  assumes t: "uint32s (tags feature)" and g: "uint32s (geometry feature)"
    and ty: "0 \<le> type_m feature" "type_m feature < 2 ^ 32"
    and lt: "length (tags feature) < 2 ^ 28" and lg: "length (geometry feature) < 2 ^ 28"
  shows "readFields (featureBody feature) = Some (featureFields feature)"
proof -
  have pt: "length (packedPayload (tags feature)) < 2 ^ 32"
    using packedPayload_short [OF t] lt by simp
  have pg: "length (packedPayload (geometry feature)) < 2 ^ 32"
    using packedPayload_short [OF g] lg by simp
  have 3: "readFields (packedField 0x22 (geometry feature)) =
      Some (if geometry feature = [] then [] else [LenField 4 (packedPayload (geometry feature))])"
    using readFields_geometry [OF pg, of "[]"]
    by (simp add: packedField_def readFields_Nil)
  have 2: "readFields (0x18 # varintLoop (type_m feature) @ packedField 0x22 (geometry feature)) =
      Some (VarintField 3 (nat (type_m feature)) #
        (if geometry feature = [] then [] else [LenField 4 (packedPayload (geometry feature))]))"
    using readFields_type [OF ty] by (simp add: 3)
  show ?thesis
  proof (cases "tags feature = []")
    case True
    then show ?thesis
      using 2 by (simp add: featureBody_def featureFields_def packedField_def)
  next
    case False
    then show ?thesis
      using readFields_tags [OF pt,
          of "0x18 # varintLoop (type_m feature) @ packedField 0x22 (geometry feature)"] 2
      by (simp add: featureBody_def featureFields_def packedField_def)
  qed
qed

lemma featureBody_short:
  assumes t: "uint32s (tags feature)" and g: "uint32s (geometry feature)"
    and ty: "0 \<le> type_m feature" "type_m feature < 2 ^ 32"
    and lt: "length (tags feature) < 2 ^ 28" and lg: "length (geometry feature) < 2 ^ 28"
  shows "length (featureBody feature) < 2 ^ 32"
proof -
  have v5: "length (varintLoop (int n)) \<le> 5" if "n < 2 ^ 32" for n :: nat
  proof -
    have "length (varintLoop (int n)) = varintSize (int n)"
      using that by (intro length_varintLoop) simp_all
    then show ?thesis using varintSize_le_5 [of "int n"] by simp
  qed
  have pf: "length (packedField tg vs) \<le> 6 + 5 * length vs"
    if "uint32s vs" "length vs < 2 ^ 28" for tg vs
  proof -
    have p: "length (packedPayload vs) \<le> 5 * length vs" using that(1) by (rule packedPayload_short)
    with that(2) have "length (packedPayload vs) < 2 ^ 32" by simp
    from v5 [OF this] p show ?thesis by (simp add: packedField_def)
  qed
  have "length (varintLoop (type_m feature)) = varintSize (type_m feature)"
    using ty by (rule length_varintLoop)
  then have tl: "length (varintLoop (type_m feature)) \<le> 5"
    using varintSize_le_5 [OF ty(1)] by simp
  from pf [OF t lt, of "0x12"] pf [OF g lg, of "0x22"] tl lt lg show ?thesis
    by (simp add: featureBody_def)
qed

lemma featureFields_numbers: "1 \<notin> fieldNumber ` set (featureFields feature)"
  by (simp add: featureFields_def)

text \<open>
  C9. Every feature that \<open>decodeFeatures\<close> returns has the id \<open>null\<close>. So the MVT feature
  that \<open>buildMvtLayer\<close> makes of it, copying the id, has none either, and \<open>writeFeature\<close>
  writes for it one field 2 of the layer whose body holds the tags (field 2, when there are
  any), the type (field 3) and the geometry (field 4, when there is any): read back, the
  body has no field 1. Type, tags and geometry are taken to be unsigned 32-bit values, in
  lists of fewer than \<open>2^28\<close> entries.
\<close>

theorem decoded_features_have_no_id:
  assumes "decodeFeatures b hdr maxFeatures = Inr fs" and "f \<in> set fs"
    and "m = mvtFeature f mvtType geom tgs"
    and "0 \<le> mvtType" and "mvtType < 2 ^ 32"
    and "uint32s tgs" and "uint32s geom"
    and "length tgs < 2 ^ 28" and "length geom < 2 ^ 28"
  shows "id_f f = None \<and> id_m m = None \<and>
    buf (writeFeature w m) = buf w @ 0x12 # varintLoop (int (length (featureBody m))) @ featureBody m \<and>
    readFields (0x12 # varintLoop (int (length (featureBody m))) @ featureBody m) =
      Some [LenField 2 (featureBody m)] \<and>
    readFields (featureBody m) = Some (featureFields m) \<and>
    1 \<notin> fieldNumber ` set (featureFields m)"
proof -
  from assms(1) have "featuresLoop b (geometryType hdr) (columns hdr) maxFeatures 0 [] = Inr fs"
    by (simp add: decodeFeatures_def)
  from featuresLoop_ids [OF this] assms(2) have id: "id_f f = None" by simp
  then have idm: "id_m m = None" by (simp add: assms(3) mvtFeature_def)
  have t: "uint32s (tags m)" and g: "uint32s (geometry m)"
    and ty: "0 \<le> type_m m" "type_m m < 2 ^ 32"
    and lt: "length (tags m) < 2 ^ 28" and lg: "length (geometry m) < 2 ^ 28"
    using assms(4-9) by (simp_all add: assms(3) mvtFeature_def)
  note len = featureBody_short [OF t g ty lt lg]
  have 1: "buf (writeFeature w m) =
      buf w @ 0x12 # varintLoop (int (length (featureBody m))) @ featureBody m"
    by (simp add: writeFeature_bytes [OF idm t g ty(1) len])
  have 2: "readFields (0x12 # varintLoop (int (length (featureBody m))) @ featureBody m) =
      Some [LenField 2 (featureBody m)]"
    using readFields_tags [OF len, of "[]"] by (simp add: readFields_Nil)
  from id idm 1 2 readFields_featureBody [OF t g ty lt lg] featureFields_numbers
  show ?thesis by simp
qed


lemma decodeFeatures_pointStream:
  "decodeFeatures pointStream pointHeader None = Inr [pointFeature]"
  by code_simp

lemma featureBody_point:
  "featureBody (mvtFeature pointFeature 1 [9, 50, 34] [0, 0]) =
     [0x12, 2, 0, 0, 0x18, 1, 0x22, 3, 9, 50, 34]"
  "featureFields (mvtFeature pointFeature 1 [9, 50, 34] [0, 0]) =
     [LenField 2 [0, 0], VarintField 3 1, LenField 4 [9, 50, 34]]"
  "varintLoop 11 = [11]"
  by code_simp+

theorem decoded_features_have_no_id_witness:
  "decodeFeatures pointStream pointHeader None = Inr [pointFeature] \<and>
   uint32s [0, 0] \<and> uint32s [9, 50, 34] \<and>
   id_f pointFeature = None \<and>
   buf (writeFeature newPbfWriter (mvtFeature pointFeature 1 [9, 50, 34] [0, 0])) =
     [0x12, 11, 0x12, 2, 0, 0, 0x18, 1, 0x22, 3, 9, 50, 34] \<and>
   readFields [0x12, 2, 0, 0, 0x18, 1, 0x22, 3, 9, 50, 34] =
     Some [LenField 2 [0, 0], VarintField 3 1, LenField 4 [9, 50, 34]]"
proof -
  have u: "uint32s [0, 0]" "uint32s [9, 50, 34]" by (simp_all add: uint32s_def)
  have f: "pointFeature \<in> set [pointFeature]" by simp
  from decoded_features_have_no_id [OF decodeFeatures_pointStream f refl _ _ u(1) u(2),
      of 1 newPbfWriter]
  show ?thesis
    by (simp add: featureBody_point decodeFeatures_pointStream u newPbfWriter_def)
qed

end
